theory Spec2Isabelle
  imports Complex_Main
begin

section \<open>Python strings\<close>

text \<open>
  A Python \<open>str\<close> is modelled as a \<open>string\<close>, one \<open>char\<close> per code point, for the code
  points below 256. Case mapping is the ASCII one (\<open>a\<close>..\<open>z\<close> against \<open>A\<close>..\<open>Z\<close>); every other
  character is left as it is. White space is what \<open>str.strip\<close>, \<open>str.isspace\<close> and the
  regular expression class \<open>\s\<close> accept below 256: TAB, LF, VT, FF, CR, the four separators
  FS, GS, RS, US, the blank, NEL and the no-break space.
\<close>

definition ascii_lowercase :: string where
  "ascii_lowercase = ''abcdefghijklmnopqrstuvwxyz''"

definition ascii_uppercase :: string where
  "ascii_uppercase = ''ABCDEFGHIJKLMNOPQRSTUVWXYZ''"

definition digits :: string where
  "digits = ''0123456789''"

definition whitespace :: string where
  "whitespace = [CHR 0x09, CHR 0x0A, CHR 0x0B, CHR 0x0C, CHR 0x0D,
                 CHR 0x1C, CHR 0x1D, CHR 0x1E, CHR 0x1F, CHR '' '', CHR 0x85, CHR 0xA0]"

definition is_space :: "char \<Rightarrow> bool" where
  "is_space c = (c \<in> set whitespace)"

definition upper_char :: "char \<Rightarrow> char" where
  "upper_char c = (case map_of (zip ascii_lowercase ascii_uppercase) c of Some u \<Rightarrow> u | None \<Rightarrow> c)"

definition lower_char :: "char \<Rightarrow> char" where
  "lower_char c = (case map_of (zip ascii_uppercase ascii_lowercase) c of Some l \<Rightarrow> l | None \<Rightarrow> c)"

definition str_upper :: "string \<Rightarrow> string" where
  "str_upper s = map upper_char s"

definition str_lower :: "string \<Rightarrow> string" where
  "str_lower s = map lower_char s"

definition str_strip :: "string \<Rightarrow> string" where
  "str_strip s = rev (dropWhile is_space (rev (dropWhile is_space s)))"

definition str_startswith :: "string \<Rightarrow> string \<Rightarrow> bool" where
  "str_startswith s p = (take (length p) s = p)"

text \<open>\<open>needle in s\<close>: the needle starts at some position of \<open>s\<close>.\<close>

fun str_contains :: "string \<Rightarrow> string \<Rightarrow> bool" where
  "str_contains needle [] = (needle = [])"
| "str_contains needle (c # cs) = (str_startswith (c # cs) needle \<or> str_contains needle cs)"

section \<open>Values, rows and exceptions\<close>

text \<open>
  A result row is a Python \<open>dict\<close> from column name to value: an association list in
  insertion order, with one entry per key. Only the distinction between \<open>str\<close> values and
  all others matters to the code.
\<close>

datatype py_value = StrV string | IntV int | BoolV bool | NoneV

type_synonym row = "(string \<times> py_value) list"

fun dict_set :: "('k \<times> 'v) list \<Rightarrow> 'k \<Rightarrow> 'v \<Rightarrow> ('k \<times> 'v) list" where
  "dict_set [] k v = [(k, v)]"
| "dict_set ((k', v') # d) k v = (if k' = k then (k, v) # d else (k', v') # dict_set d k v)"

definition dict_of :: "('k \<times> 'v) list \<Rightarrow> ('k \<times> 'v) list" where
  "dict_of kvs = foldl (\<lambda>d (k, v). dict_set d k v) [] kvs"

text \<open>The exceptions the core raises, each with its message.\<close>

datatype py_error =
    PermissionError string
  | TimeoutError string
  | ValueError string
  | RuntimeError string
  | ZeroDivisionError
  | ProviderError string

section \<open>Settings\<close>

definition MAX_QUERY_TIMEOUT_SECONDS :: nat where "MAX_QUERY_TIMEOUT_SECONDS = 5"
definition K_SEARCH :: nat where "K_SEARCH = 10"
definition RRF_K :: int where "RRF_K = 60"
definition TOKEN_BUDGET :: nat where "TOKEN_BUDGET = 500"
definition MAX_RETRY_COUNT :: nat where "MAX_RETRY_COUNT = 1"
definition SQL_START_TOKEN :: string where "SQL_START_TOKEN = ''[SQL_START]''"
definition SQL_END_TOKEN :: string where "SQL_END_TOKEN = ''[SQL_END]''"

fun string_of_nat :: "nat \<Rightarrow> string" where
  "string_of_nat n =
     (if n < 10 then [digits ! n] else string_of_nat (n div 10) @ [digits ! (n mod 10)])"

section \<open>SafeDatabaseConnector\<close>

text \<open>
  The database behind the SQLAlchemy engine is external. It is a pair of state-passing
  operations over a state \<open>'d\<close> of its own: opening a connection, which may raise, and
  executing a statement on an open connection, which raises or yields the column names and
  the tuples of the result. An exception of the driver is an \<open>OperationalError\<close>, with its
  \<open>str\<close> and its \<open>repr\<close>, or any other exception, with its \<open>repr\<close>.
  The connector's state is the database state and the log of what reached the database.
\<close>

datatype db_exception = OperationalError string string | OtherException string

datatype db_event = Connect | Execute string

record 'd database =
  db_connect :: "'d \<Rightarrow> db_exception option \<times> 'd"
  db_execute :: "'d \<Rightarrow> string \<Rightarrow> (db_exception + string list \<times> py_value list list) \<times> 'd"

record 'd connector_state =
  db_state :: 'd
  db_log :: "db_event list"

text \<open>The two \<open>except\<close> clauses around the execution block.\<close>

definition handle_db_exception :: "db_exception \<Rightarrow> py_error" where
  "handle_db_exception e =
     (case e of
        OperationalError str_e repr_e \<Rightarrow>
          if str_contains ''statement timeout'' str_e
          then TimeoutError (''Query execution exceeded time limits (>''
                 @ string_of_nat MAX_QUERY_TIMEOUT_SECONDS @ ''s). Please simplify your request.'')
          else ValueError (''Database Execution Error: '' @ repr_e)
      | OtherException repr_e \<Rightarrow>
          RuntimeError (''A general error occurred during database operation: '' @ repr_e))"

definition execute_read_only_query ::
  "'d database \<Rightarrow> 'd connector_state \<Rightarrow> string \<Rightarrow> (py_error + row list) \<times> 'd connector_state" where
  "execute_read_only_query db c sql_query =
     (let normalized_query = str_upper (str_strip sql_query) in
      if \<not> (str_startswith normalized_query ''SELECT'' \<or> str_startswith normalized_query ''WITH'')
      then (Inl (PermissionError
              ''Query failed security validation. Only read (SELECT/WITH) statements are allowed.''), c)
      else
        (case db_connect db (db_state c) of
           (Some e, d1) \<Rightarrow>
             (Inl (handle_db_exception e), \<lparr>db_state = d1, db_log = db_log c @ [Connect]\<rparr>)
         | (None, d1) \<Rightarrow>
             (case db_execute db d1 sql_query of
                (Inl e, d2) \<Rightarrow>
                  (Inl (handle_db_exception e),
                   \<lparr>db_state = d2, db_log = db_log c @ [Connect, Execute sql_query]\<rparr>)
              | (Inr (column_names, tuples), d2) \<Rightarrow>
                  (Inr (map (\<lambda>t. dict_of (zip column_names t)) tuples),
                   \<lparr>db_state = d2, db_log = db_log c @ [Connect, Execute sql_query]\<rparr>))))"

text \<open>A database that answers every statement with one row, for concrete runs.\<close>

definition one_row_db :: "unit database" where
  "one_row_db = \<lparr>db_connect = (\<lambda>d. (None, d)),
                 db_execute = (\<lambda>d q. (Inr ([''n''], [[IntV 1]]), d))\<rparr>"

text \<open>A database that answers a statement with the statement itself and keeps what it was
  asked to execute as its state.\<close>

definition echo_db :: "string list database" where
  "echo_db = \<lparr>db_connect = (\<lambda>d. (None, d)),
              db_execute = (\<lambda>d q. (Inr ([''statement''], [[StrV q]]), d @ [q]))\<rparr>"

definition fresh_connector :: "'d \<Rightarrow> 'd connector_state" where
  "fresh_connector d = \<lparr>db_state = d, db_log = []\<rparr>"

section \<open>Reciprocal rank fusion\<close>

text \<open>
  The scores are Python floats. Their arithmetic is a parameter: a zero, an addition, and
  the quotient \<open>1.0 / n\<close> for a non-zero integer \<open>n\<close>, over any linearly ordered type of
  scores. Whatever is proved below holds for each such arithmetic, rounding or exact;
  \<open>exact_arith\<close> is the one over the rationals, used for concrete runs.
\<close>

record 'f arith =
  f_zero :: 'f
  f_add :: "'f \<Rightarrow> 'f \<Rightarrow> 'f"
  f_recip :: "int \<Rightarrow> 'f"

definition exact_arith :: "rat arith" where
  "exact_arith = \<lparr>f_zero = 0, f_add = (+), f_recip = (\<lambda>n. 1 / of_int n)\<rparr>"

text \<open>
  \<open>fused_scores\<close> is a \<open>defaultdict(float)\<close>: an association list in insertion order.
  \<open>fused_scores[doc_id] += score\<close> reads the entry, which a missing key gets as zero at
  the end of the dictionary, and stores the sum in its place.
\<close>

fun add_score :: "'f arith \<Rightarrow> (string \<times> 'f) list \<Rightarrow> string \<Rightarrow> 'f \<Rightarrow> (string \<times> 'f) list" where
  "add_score fl [] doc_id score = [(doc_id, f_add fl (f_zero fl) score)]"
| "add_score fl ((d, s) # fused_scores) doc_id score =
     (if d = doc_id then (d, f_add fl s score) # fused_scores
      else (d, s) # add_score fl fused_scores doc_id score)"

definition score_of :: "'f arith \<Rightarrow> (string \<times> 'f) list \<Rightarrow> string \<Rightarrow> 'f" where
  "score_of fl fused_scores doc_id =
     (case map_of fused_scores doc_id of Some s \<Rightarrow> s | None \<Rightarrow> f_zero fl)"

text \<open>
  The inner loop, \<open>for rank, doc_id in enumerate(ranks)\<close>, and the outer one over the
  ranked lists. The division raises \<open>ZeroDivisionError\<close> when \<open>k + rank + 1\<close> is zero.
\<close>

fun fuse_ranks ::
  "'f arith \<Rightarrow> int \<Rightarrow> nat \<Rightarrow> string list \<Rightarrow> (string \<times> 'f) list \<Rightarrow> py_error + (string \<times> 'f) list" where
  "fuse_ranks fl k rank [] fused_scores = Inr fused_scores"
| "fuse_ranks fl k rank (doc_id # ranks) fused_scores =
     (if k + int rank + 1 = 0 then Inl ZeroDivisionError
      else fuse_ranks fl k (Suc rank) ranks
             (add_score fl fused_scores doc_id (f_recip fl (k + int rank + 1))))"

fun fuse_results ::
  "'f arith \<Rightarrow> int \<Rightarrow> string list list \<Rightarrow> (string \<times> 'f) list \<Rightarrow> py_error + (string \<times> 'f) list" where
  "fuse_results fl k [] fused_scores = Inr fused_scores"
| "fuse_results fl k (ranks # search_results) fused_scores =
     (case fuse_ranks fl k 0 ranks fused_scores of
        Inl e \<Rightarrow> Inl e
      | Inr fused_scores' \<Rightarrow> fuse_results fl k search_results fused_scores')"

text \<open>
  \<open>sorted(..., key=..., reverse=True)\<close> is a stable sort into descending order of the
  key: elements with equal keys keep their order. Any stable sort computes the same list;
  this one inserts each element in front of the first one whose key is not larger.
\<close>

fun insert_desc :: "('a \<Rightarrow> 'f::linorder) \<Rightarrow> 'a \<Rightarrow> 'a list \<Rightarrow> 'a list" where
  "insert_desc key x [] = [x]"
| "insert_desc key x (y # ys) =
     (if key y \<le> key x then x # y # ys else y # insert_desc key x ys)"

definition sorted_reverse :: "('a \<Rightarrow> 'f::linorder) \<Rightarrow> 'a list \<Rightarrow> 'a list" where
  "sorted_reverse key xs = foldr (insert_desc key) xs []"

definition reciprocal_rank_fusion ::
  "('f::linorder) arith \<Rightarrow> string list list \<Rightarrow> int \<Rightarrow> py_error + string list" where
  "reciprocal_rank_fusion fl search_results k =
     (case fuse_results fl k search_results [] of
        Inl e \<Rightarrow> Inl e
      | Inr fused_scores \<Rightarrow>
          Inr (sorted_reverse (\<lambda>doc_id. score_of fl fused_scores doc_id) (map fst fused_scores)))"

text \<open>
  For the statement of the fusion contract: the position of the first occurrence of an
  identifier in a list, the ranks at which an identifier occurs in a ranked list, and the
  score the contract gives it, the contributions of all lists added up in their order.
\<close>

fun index_of :: "'a list \<Rightarrow> 'a \<Rightarrow> nat" where
  "index_of [] x = 0"
| "index_of (y # ys) x = (if y = x then 0 else Suc (index_of ys x))"

definition ranks_of :: "string \<Rightarrow> string list \<Rightarrow> nat list" where
  "ranks_of d ranks = filter (\<lambda>i. ranks ! i = d) [0..<length ranks]"

definition contributions :: "'f arith \<Rightarrow> int \<Rightarrow> string \<Rightarrow> string list list \<Rightarrow> 'f list" where
  "contributions fl k d search_results =
     concat (map (\<lambda>ranks. map (\<lambda>rank. f_recip fl (k + int rank + 1)) (ranks_of d ranks))
                 search_results)"

definition rrf_score :: "'f arith \<Rightarrow> int \<Rightarrow> string list list \<Rightarrow> string \<Rightarrow> 'f" where
  "rrf_score fl k search_results d =
     foldl (f_add fl) (f_zero fl) (contributions fl k d search_results)"

section \<open>HybridSearchRetriever\<close>

text \<open>
  The two indexes are external: \<open>query_top_k\<close> returns a ranked list of table names or
  raises, \<open>get_content\<close> returns the stored text of a table, empty when there is none.
\<close>

record search_index =
  query_top_k :: "string \<Rightarrow> nat \<Rightarrow> py_error + string list"
  get_content :: "string \<Rightarrow> string"

record retriever =
  vector_db :: search_index
  keyword_index :: search_index
  k_search :: nat
  k_rrf :: int

definition HybridSearchRetriever :: "search_index \<Rightarrow> search_index \<Rightarrow> retriever" where
  "HybridSearchRetriever vector_db_connector keyword_index_connector =
     \<lparr>vector_db = vector_db_connector, keyword_index = keyword_index_connector,
      k_search = K_SEARCH, k_rrf = RRF_K\<rparr>"

record chunk =
  table_name :: string
  content :: string

definition semantic_search :: "retriever \<Rightarrow> string \<Rightarrow> py_error + string list" where
  "semantic_search r query = query_top_k (vector_db r) query (k_search r)"

definition keyword_search :: "retriever \<Rightarrow> string \<Rightarrow> py_error + string list" where
  "keyword_search r query = query_top_k (keyword_index r) query (k_search r)"

definition fetch_full_schema_content :: "retriever \<Rightarrow> string \<Rightarrow> string" where
  "fetch_full_schema_content r tname =
     (let c = get_content (vector_db r) tname in
      if c = [] then ''# Table: '' @ tname @ [CHR 0x0A] @ ''Error: Schema content missing from index.''
      else c)"

text \<open>
  The aggregation loop over the fused ranking, with its running token count and the
  context built so far; it stops at the first chunk that does not fit.
\<close>

fun aggregate :: "retriever \<Rightarrow> string list \<Rightarrow> nat \<Rightarrow> chunk list \<Rightarrow> chunk list \<times> bool" where
  "aggregate r [] current_token_count retrieved_context = (retrieved_context, False)"
| "aggregate r (tname # fused_ranks) current_token_count retrieved_context =
     (let schema_content = fetch_full_schema_content r tname;
          content_tokens = length schema_content div 4
      in if current_token_count + content_tokens \<le> TOKEN_BUDGET
         then aggregate r fused_ranks (current_token_count + content_tokens)
                (retrieved_context @ [\<lparr>table_name = tname, content = schema_content\<rparr>])
         else (retrieved_context, True))"

definition retrieve_schema_chunks ::
  "('f::linorder) arith \<Rightarrow> retriever \<Rightarrow> string \<Rightarrow> py_error + chunk list \<times> bool" where
  "retrieve_schema_chunks fl r query =
     (case semantic_search r query of
        Inl e \<Rightarrow> Inl e
      | Inr vector_ranks \<Rightarrow>
          (case keyword_search r query of
             Inl e \<Rightarrow> Inl e
           | Inr keyword_ranks \<Rightarrow>
               (case reciprocal_rank_fusion fl [vector_ranks, keyword_ranks] (k_rrf r) of
                  Inl e \<Rightarrow> Inl e
                | Inr fused_ranks \<Rightarrow> Inr (aggregate r fused_ranks 0 []))))"

definition token_cost :: "chunk list \<Rightarrow> nat" where
  "token_cost ctx = sum_list (map (\<lambda>c. length (content c) div 4) ctx)"

text \<open>The two mock indexes of the repository, over the store filled at ingestion.\<close>

definition MockVectorDB :: "(string \<times> string) list \<Rightarrow> search_index" where
  "MockVectorDB store =
     \<lparr>query_top_k = (\<lambda>query k.
        if str_contains ''sales'' (str_lower query) \<or> str_contains ''revenue'' (str_lower query)
        then Inr [''Orders'', ''Products'', ''Customers'', ''Shipments'']
        else if str_contains ''user'' (str_lower query) \<or> str_contains ''account'' (str_lower query)
        then Inr [''Customers'', ''Orders'', ''SalesLogs'', ''Employees'']
        else Inr (take k (map fst store))),
      get_content = (\<lambda>tname. case map_of store tname of Some c \<Rightarrow> c | None \<Rightarrow> [])\<rparr>"

definition MockKeywordIndex :: "(string \<times> string) list \<Rightarrow> search_index" where
  "MockKeywordIndex store =
     \<lparr>query_top_k = (\<lambda>query k.
        if str_contains ''id'' (str_lower query) \<or> str_contains ''customer'' (str_lower query)
        then Inr [''Customers'', ''Orders'', ''Employees'', ''Shipments'']
        else if str_contains ''amount'' (str_lower query)
        then Inr [''Orders'', ''Products'', ''SalesLogs'', ''Customers'']
        else Inr (take k (rev (map fst store)))),
      get_content = (\<lambda>tname. case map_of store tname of Some c \<Rightarrow> c | None \<Rightarrow> [])\<rparr>"

text \<open>An index whose search raises.\<close>

definition failing_index :: "string \<Rightarrow> search_index" where
  "failing_index msg = \<lparr>query_top_k = (\<lambda>query k. Inl (ProviderError msg)), get_content = (\<lambda>tname. [])\<rparr>"

text \<open>A store, a retriever over the two mock indexes and a question, for concrete runs.\<close>

definition demo_store :: "(string \<times> string) list" where
  "demo_store = [(''Customers'', replicate 2004 (CHR ''c'')), (''Orders'', ''# Table: Orders...'')]"

definition demo_retriever :: retriever where
  "demo_retriever = HybridSearchRetriever (MockVectorDB demo_store) (MockKeywordIndex demo_store)"

definition demo_query :: string where
  "demo_query = ''What was the total order amount for all key accounts?''"

section \<open>Regular expressions\<close>

text \<open>
  A pattern of Python's \<open>re\<close> module is modelled by the backtracking search the module
  performs. A matcher takes the text at the current position and returns the text that
  remains after the match, or \<open>None\<close>. Every construct takes the matcher of the rest of
  the pattern as its continuation, so that a later failure makes an earlier construct try
  its next choice, in the order of the module: a greedy repetition tries the longest run
  first and gives characters back one at a time, a lazy optional item tries to go on
  without the item first, an alternation tries its branches from left to right.
\<close>

type_synonym matcher = "string \<Rightarrow> string option"

definition accept :: matcher where
  "accept s = Some s"

definition one_of :: "(char \<Rightarrow> bool) \<Rightarrow> matcher \<Rightarrow> matcher" where
  "one_of P k s = (case s of [] \<Rightarrow> None | c # cs \<Rightarrow> if P c then k cs else None)"

definition lit :: "char \<Rightarrow> matcher \<Rightarrow> matcher" where
  "lit c = one_of (\<lambda>x. x = c)"

fun exactly :: "nat \<Rightarrow> (char \<Rightarrow> bool) \<Rightarrow> matcher \<Rightarrow> matcher" where
  "exactly 0 P k = k"
| "exactly (Suc n) P k = one_of P (exactly n P k)"

fun backtrack :: "matcher \<Rightarrow> string \<Rightarrow> nat \<Rightarrow> nat \<Rightarrow> string option" where
  "backtrack k s lo 0 = (if lo = 0 then k s else None)"
| "backtrack k s lo (Suc j) =
     (if Suc j < lo then None
      else case k (drop (Suc j) s) of Some r \<Rightarrow> Some r | None \<Rightarrow> backtrack k s lo j)"

definition greedy :: "(char \<Rightarrow> bool) \<Rightarrow> nat \<Rightarrow> matcher \<Rightarrow> matcher" where
  "greedy P lo k s = backtrack k s lo (length (takeWhile P s))"

definition lazy_optional :: "(char \<Rightarrow> bool) \<Rightarrow> matcher \<Rightarrow> matcher" where
  "lazy_optional P k s = (case k s of Some r \<Rightarrow> Some r | None \<Rightarrow> one_of P k s)"

definition alternative :: "matcher \<Rightarrow> matcher \<Rightarrow> matcher" where
  "alternative p q s = (case p s of Some r \<Rightarrow> Some r | None \<Rightarrow> q s)"

text \<open>
  \<open>re.search\<close> succeeds when the pattern matches at some position. \<open>re.sub\<close> goes
  through the text from the left, replaces the match at the first position that has one
  and goes on behind it. The patterns used here match no empty text.
\<close>

fun re_search :: "matcher \<Rightarrow> string \<Rightarrow> bool" where
  "re_search m [] = (m [] \<noteq> None)"
| "re_search m (c # cs) = (m (c # cs) \<noteq> None \<or> re_search m cs)"

function re_sub :: "matcher \<Rightarrow> string \<Rightarrow> string \<Rightarrow> string" where
  "re_sub m repl [] = []"
| "re_sub m repl (c # cs) =
     (case m (c # cs) of
        Some rest \<Rightarrow>
          if length rest \<le> length cs then repl @ re_sub m repl rest
          else c # re_sub m repl cs
      | None \<Rightarrow> c # re_sub m repl cs)"
  by pat_completeness auto
termination
  by (relation "measure (\<lambda>(m, repl, s). length s)") auto

text \<open>\<open>str.replace\<close> with a non-empty \<open>old\<close>: the same scan, for the literal text.\<close>

definition match_literal :: "string \<Rightarrow> matcher" where
  "match_literal old s = (if str_startswith s old then Some (drop (length old) s) else None)"

definition str_replace :: "string \<Rightarrow> string \<Rightarrow> string \<Rightarrow> string" where
  "str_replace s old new = re_sub (match_literal old) new s"

section \<open>PostQueryScrubber\<close>

text \<open>
  The character classes of the two patterns. \<open>\d\<close> and \<open>\s\<close> are the Unicode classes
  of a \<open>str\<close> pattern, which below 256 are the ten digits and the white space above.
\<close>

definition is_alpha :: "char \<Rightarrow> bool" where
  "is_alpha c = (c \<in> set ascii_lowercase \<or> c \<in> set ascii_uppercase)"

definition is_digit :: "char \<Rightarrow> bool" where
  "is_digit c = (c \<in> set digits)"

definition is_local :: "char \<Rightarrow> bool" where
  "is_local c = (is_alpha c \<or> is_digit c \<or> c \<in> set ''._%+-'')"

definition is_domain :: "char \<Rightarrow> bool" where
  "is_domain c = (is_alpha c \<or> is_digit c \<or> c \<in> set ''.-'')"

definition is_separator :: "char \<Rightarrow> bool" where
  "is_separator c = (c \<in> set ''-.'' \<or> is_space c)"

text \<open>\<^verbatim>\<open>[a-zA-Z0-9._%+-]+@[a-zA-Z0-9.-]+\.[a-zA-Z]{2,}\<close>\<close>

definition EMAIL :: matcher where
  "EMAIL = greedy is_local 1 (lit (CHR ''@'')
             (greedy is_domain 1 (lit (CHR ''.'') (greedy is_alpha 2 accept))))"

text \<open>\<^verbatim>\<open>(\d{3}[-\.\s]??\d{3}[-\.\s]??\d{4}|\(\d{3}\)\s*\d{3}[-\.\s]??\d{4}|\d{7})\<close>\<close>

definition PHONE :: matcher where
  "PHONE =
     alternative
       (exactly 3 is_digit (lazy_optional is_separator
          (exactly 3 is_digit (lazy_optional is_separator (exactly 4 is_digit accept)))))
       (alternative
          (lit (CHR ''('') (exactly 3 is_digit (lit (CHR '')'') (greedy is_space 0
             (exactly 3 is_digit (lazy_optional is_separator (exactly 4 is_digit accept)))))))
          (exactly 7 is_digit accept))"

text \<open>
  \<open>_mask_value\<close>: the loop over \<open>pii_patterns\<close>, in the order of the dictionary, then
  the branch for names and addresses, which returns the replacement made in \<open>text\<close>.
\<close>

definition mask_value :: "string \<Rightarrow> string" where
  "mask_value text =
     (let masked_text = text;
          masked_text = (if re_search EMAIL text
                         then re_sub EMAIL ''[MASKED_EMAIL]'' masked_text else masked_text);
          masked_text = (if re_search PHONE text
                         then re_sub PHONE ''[MASKED_PHONE]'' masked_text else masked_text)
      in if str_contains ''address'' (str_lower text) \<or> str_contains ''name'' (str_lower text)
         then str_replace text ''John Doe'' ''[MASKED_NAME]''
         else masked_text)"

definition scrub_results :: "row list \<Rightarrow> row list" where
  "scrub_results result_set =
     map (\<lambda>row. map (\<lambda>(key, v). (key, case v of StrV s \<Rightarrow> StrV (mask_value s) | _ \<Rightarrow> v)) row)
         result_set"

section \<open>Prompts\<close>

text \<open>
  The two templates of \<open>config/prompts.py\<close>, each as the function that \<open>str.format\<close>
  computes from its fields.
\<close>

definition SYSTEM_PROMPT_TEMPLATE :: "string \<Rightarrow> string" where
  "SYSTEM_PROMPT_TEMPLATE schema_context =
     ''\<newline>''
   @ ''You are SchemaLink, an expert PostgreSQL query generator. \<newline>''
   @ ''Your sole task is to generate a single, accurate, and secure PostgreSQL SELECT statement \<newline>''
   @ ''that answers the user's question, strictly based on the provided schema context.\<newline>''
   @ ''\<newline>''
   @ ''**CRUCIAL CONSTRAINTS:**\<newline>''
   @ ''1.  **SQL DIALECT:** You MUST use **PostgreSQL** syntax only. DO NOT use MySQL, SQLite, or T-SQL syntax.\<newline>''
   @ ''2.  **SECURITY:** Your query MUST start with 'SELECT' or 'WITH'. Never generate INSERT, UPDATE, DELETE, or DROP statements.\<newline>''
   @ ''3.  **SCHEMA ACCURACY:** Use only the table and column names provided in the context below.\<newline>''
   @ ''4.  **FOREIGN KEYS (JOINs):** Explicitly reference the Foreign Key (FK) descriptions to construct accurate JOIN statements.\<newline>''
   @ ''\<newline>''
   @ ''**SELF-CRITIQUE STEP (LLD Requirement):**\<newline>''
   @ ''Before outputting, analyze the query: If you select columns from two different tables, you MUST ensure they are correctly joined using the specified foreign keys.\<newline>''
   @ ''\<newline>''
   @ ''**OUTPUT FORMAT:**\<newline>''
   @ ''You must wrap the final, executable SQL query within the designated start and end tokens.\<newline>''
   @ ''\<newline>''
   @ SQL_START_TOKEN @ ''\<newline>''
   @ ''<Your PostgreSQL SELECT query here>\<newline>''
   @ SQL_END_TOKEN @ ''\<newline>''
   @ ''\<newline>''
   @ ''--- SCHEMA CONTEXT ---\<newline>''
   @ schema_context
   @ ''\<newline>''"

definition CRITIC_PROMPT_TEMPLATE :: "string \<Rightarrow> string \<Rightarrow> string" where
  "CRITIC_PROMPT_TEMPLATE failed_query error_message =
     ''\<newline>''
   @ ''The previous SQL query you generated failed execution with a database error.\<newline>''
   @ ''You have **one chance** to revise and correct the query.\<newline>''
   @ ''\<newline>''
   @ ''**FAILED QUERY:**\<newline>''
   @ failed_query
   @ ''\<newline>''
   @ ''\<newline>''
   @ ''**DATABASE ERROR MESSAGE:**\<newline>''
   @ error_message
   @ ''\<newline>''
   @ ''\<newline>''
   @ ''Carefully analyze the error message. It usually indicates a missing column, a forgotten JOIN, or incorrect syntax.\<newline>''
   @ ''Based on the original user question and the provided schema (still valid), output the single, corrected PostgreSQL query.\<newline>''
   @ ''\<newline>''
   @ ''**OUTPUT FORMAT:**\<newline>''
   @ SQL_START_TOKEN @ ''\<newline>''
   @ ''<Your corrected PostgreSQL SELECT query here>\<newline>''
   @ SQL_END_TOKEN @ ''\<newline>''"

section \<open>LLMAgent\<close>

fun str_join :: "string \<Rightarrow> string list \<Rightarrow> string" where
  "str_join sep [] = []"
| "str_join sep [x] = x"
| "str_join sep (x # y # xs) = x @ sep @ str_join sep (y # xs)"

text \<open>The error details kept for the self-correction prompt: the dictionary with the keys
  \<open>query\<close> and \<open>error\<close>.\<close>

record error_detail =
  ed_query :: string
  ed_error :: string

definition build_sql_prompt :: "string \<Rightarrow> chunk list \<Rightarrow> bool \<Rightarrow> error_detail option \<Rightarrow> string" where
  "build_sql_prompt user_query schema_context_list is_retry error_details =
     (let schema_context_str = str_join ''\<newline>'' (map content schema_context_list) in
      case (if is_retry then error_details else None) of
        Some ed \<Rightarrow>
          CRITIC_PROMPT_TEMPLATE (ed_query ed) (ed_error ed)
          @ ''\<newline>--- SCHEMA CONTEXT (Original) ---\<newline>'' @ schema_context_str
          @ ''\<newline>--- USER QUESTION (Original) ---\<newline>'' @ user_query
      | None \<Rightarrow>
          SYSTEM_PROMPT_TEMPLATE schema_context_str
          @ ''\<newline>--- USER QUESTION ---\<newline>'' @ user_query)"

text \<open>
  \<open>_parse_sql\<close> searches, ignoring case and with \<open>.\<close> matching every character, for
  the start token, white space, a shortest run of characters, white space and the end
  token. The leftmost match starts at the first start token that has an end token after
  it; its group, once stripped, is the stripped text between that start token and the
  first end token after it. Back quotes are then removed.
\<close>

fun find_ci :: "string \<Rightarrow> string \<Rightarrow> (string \<times> string) option" where
  "find_ci token [] = (if token = [] then Some ([], []) else None)"
| "find_ci token (c # cs) =
     (if str_startswith (str_lower (c # cs)) (str_lower token)
      then Some ([], drop (length token) (c # cs))
      else (case find_ci token cs of
              None \<Rightarrow> None
            | Some (before, after) \<Rightarrow> Some (c # before, after)))"

definition parse_sql :: "string \<Rightarrow> string option" where
  "parse_sql response_text =
     (case find_ci SQL_START_TOKEN response_text of
        None \<Rightarrow> None
      | Some (before, rest) \<Rightarrow>
          (case find_ci SQL_END_TOKEN rest of
             None \<Rightarrow> None
           | Some (body, after) \<Rightarrow> Some (filter (\<lambda>c. c \<noteq> CHR 0x60) (str_strip body))))"

text \<open>
  The language model is external: \<open>generate\<close> is a state-passing function over a state
  \<open>'g\<close> of the client. The agent holds the retriever, the database behind its connector
  and the client. What a run does to the outside is recorded in a trace: every call of
  the generator with its prompt, and every call of the connector with the statement and
  what came back. Wall-clock latencies are not modelled.
\<close>

datatype agent_event = Generated string | Executed string "py_error + row list"

record ('g, 'd) llm_agent =
  retriever :: retriever
  db_connector :: "'d database"
  llm_client :: "'g \<Rightarrow> string \<Rightarrow> string \<times> 'g"

record ('g, 'd) world =
  llm_state :: 'g
  connector :: "'d connector_state"
  trace :: "agent_event list"

definition initial_world :: "'g \<Rightarrow> 'd \<Rightarrow> ('g, 'd) world" where
  "initial_world g d = \<lparr>llm_state = g, connector = fresh_connector d, trace = []\<rparr>"

definition generate_sql ::
  "('g, 'd) llm_agent \<Rightarrow> string \<Rightarrow> chunk list \<Rightarrow> nat \<Rightarrow> error_detail option \<Rightarrow> ('g, 'd) world
     \<Rightarrow> (string option \<times> string) \<times> ('g, 'd) world" where
  "generate_sql agent user_query schema_context attempt error_details w =
     (let is_retry = (attempt > 0);
          prompt = build_sql_prompt user_query schema_context is_retry error_details;
          (response_text, g') = llm_client agent (llm_state w) prompt;
          w' = w\<lparr>llm_state := g', trace := trace w @ [Generated prompt]\<rparr>
      in case parse_sql response_text of
           None \<Rightarrow> ((None, response_text), w')
         | Some q \<Rightarrow> if q = [] then ((None, response_text), w') else ((Some q, response_text), w'))"

datatype run_status = Success | Failure

record run_outcome =
  status :: run_status
  answer :: string
  sql_query :: "string option"
  result_set :: "row list option"
  error_details :: "error_detail option"

definition failure_outcome :: "string \<Rightarrow> run_outcome" where
  "failure_outcome msg =
     \<lparr>status = Failure, answer = msg, sql_query = None, result_set = None, error_details = None\<rparr>"

text \<open>
  The retry loop, \<open>for attempt in range(MAX_RETRY_COUNT + 1)\<close>, over the attempts that
  remain. \<open>continue\<close> goes on with the rest, \<open>break\<close> and the end of the range return
  \<open>full_result\<close>, \<open>return\<close> returns its own dictionary, and an exception that the
  \<open>except\<close> clause does not name leaves the function.
\<close>

fun attempt_loop ::
  "('g, 'd) llm_agent \<Rightarrow> string \<Rightarrow> chunk list \<Rightarrow> nat list \<Rightarrow> run_outcome \<Rightarrow> ('g, 'd) world
     \<Rightarrow> (py_error + run_outcome) \<times> ('g, 'd) world" where
  "attempt_loop agent user_query schema_context [] full_result w = (Inr full_result, w)"
| "attempt_loop agent user_query schema_context (attempt # attempts) full_result w =
     (case generate_sql agent user_query schema_context attempt (error_details full_result) w of
        ((None, llm_response), w1) \<Rightarrow>
          attempt_loop agent user_query schema_context attempts
            (full_result\<lparr>answer := ''LLM failed to generate parseable SQL after ''
                                     @ string_of_nat attempt @ '' attempts.''\<rparr>) w1
      | ((Some q, llm_response), w1) \<Rightarrow>
          (case execute_read_only_query (db_connector agent) (connector w1) q of
             (res, c2) \<Rightarrow>
               (let w2 = w1\<lparr>connector := c2, trace := trace w1 @ [Executed q res]\<rparr> in
                case res of
                  Inr rows \<Rightarrow>
                    (Inr (full_result\<lparr>status := Success, sql_query := Some q,
                                       result_set := Some rows\<rparr>), w2)
                | Inl (PermissionError error_message) \<Rightarrow>
                    (Inr (failure_outcome (''Query execution terminated by security guardrail: ''
                                           @ error_message)), w2)
                | Inl (TimeoutError error_message) \<Rightarrow>
                    (Inr (failure_outcome error_message), w2)
                | Inl (ValueError error_message) \<Rightarrow>
                    (let full_result' = full_result\<lparr>error_details :=
                           Some \<lparr>ed_query = q, ed_error = error_message\<rparr>\<rparr>
                     in if attempt = MAX_RETRY_COUNT
                        then (Inr (full_result'\<lparr>answer :=
                                ''SQL failed execution after max retries. Final error: ''
                                @ error_message\<rparr>), w2)
                        else attempt_loop agent user_query schema_context attempts full_result' w2)
                | Inl e \<Rightarrow> (Inl e, w2))))"

definition run ::
  "('f::linorder) arith \<Rightarrow> ('g, 'd) llm_agent \<Rightarrow> string \<Rightarrow> ('g, 'd) world
     \<Rightarrow> (py_error + run_outcome) \<times> ('g, 'd) world" where
  "run fl agent user_query w =
     (let full_result = failure_outcome ''Could not generate or execute a valid query.'' in
      case retrieve_schema_chunks fl (retriever agent) user_query of
        Inl e \<Rightarrow> (Inl e, w)
      | Inr (schema_context, truncation_warning) \<Rightarrow>
          if schema_context = []
          then (Inr (failure_outcome ''Schema retrieval failed. Context is empty.''), w)
          else attempt_loop agent user_query schema_context [0..<MAX_RETRY_COUNT + 1] full_result w)"

text \<open>
  The client the repository wires in, \<open>MockLLMClient\<close>, whose state is its
  \<open>error_mode\<close> flag; a client that replays a list of canned responses; and a database
  that replays a list of canned replies to \<open>execute\<close>, for concrete runs.
\<close>

definition MockLLMClient_generate :: "bool \<Rightarrow> string \<Rightarrow> string \<times> bool" where
  "MockLLMClient_generate error_mode prompt =
     (if error_mode
      then (SQL_START_TOKEN @ ''SELECT non_existent_column FROM Orders;'' @ SQL_END_TOKEN, False)
      else (SQL_START_TOKEN
            @ (if str_contains ''key accounts'' prompt
               then ''SELECT T1.total_amount, T2.customer_name FROM Orders T1 JOIN Customers T2 ON T1.customer_id = T2.customer_id WHERE T2.account_type = 'Key Account';''
               else ''SELECT SUM(total_amount) FROM Orders;'')
            @ SQL_END_TOKEN, error_mode))"

definition canned_llm :: "string list \<Rightarrow> string \<Rightarrow> string \<times> string list" where
  "canned_llm responses prompt = (case responses of [] \<Rightarrow> ([], []) | x # xs \<Rightarrow> (x, xs))"

definition canned_db :: "(db_exception + string list \<times> py_value list list) list database" where
  "canned_db =
     \<lparr>db_connect = (\<lambda>d. (None, d)),
      db_execute = (\<lambda>d q. case d of [] \<Rightarrow> (Inr ([], []), []) | x # xs \<Rightarrow> (x, xs))\<rparr>"

definition demo_agent :: "(string list, (db_exception + string list \<times> py_value list list) list) llm_agent" where
  "demo_agent =
     \<lparr>retriever = HybridSearchRetriever (MockVectorDB [(''Orders'', ''# Table: Orders...'')])
                                         (MockKeywordIndex [(''Orders'', ''# Table: Orders...'')]),
      db_connector = canned_db,
      llm_client = canned_llm\<rparr>"


definition select_response :: string where
  "select_response = ''[SQL_START]SELECT SUM(total_amount) FROM Orders;[SQL_END]''"


section \<open>Notions used in the proofs\<close>

text \<open>
  For the fusion: the contributions of one ranked list to an identifier, as the inner loop
  meets them; the invariant of the dictionary's keys against the identifiers \<open>P\<close> seen so
  far (one key per identifier, in the order of first occurrence); and the order of the
  result, by descending key and by position among equal keys.
\<close>

fun contribs_from :: "'f arith \<Rightarrow> int \<Rightarrow> nat \<Rightarrow> string \<Rightarrow> string list \<Rightarrow> 'f list" where
  "contribs_from fl k rank d [] = []"
| "contribs_from fl k rank d (x # xs) =
     (if x = d then [f_recip fl (k + int rank + 1)] else []) @ contribs_from fl k (Suc rank) d xs"

definition keys_inv :: "string list \<Rightarrow> string list \<Rightarrow> bool" where
  "keys_inv P K \<longleftrightarrow> distinct K \<and> set K = set P \<and> sorted_wrt (\<lambda>a b. index_of P a < index_of P b) K"

definition desc_then_first :: "('a \<Rightarrow> 'f::linorder) \<Rightarrow> ('a \<Rightarrow> nat) \<Rightarrow> 'a \<Rightarrow> 'a \<Rightarrow> bool" where
  "desc_then_first key pos a b \<longleftrightarrow> key b < key a \<or> (key a = key b \<and> pos a < pos b)"

text \<open>The chunk that the aggregation loop builds for a table name.\<close>

definition chunk_of :: "retriever \<Rightarrow> string \<Rightarrow> chunk" where
  "chunk_of r tname = \<lparr>table_name = tname, content = fetch_full_schema_content r tname\<rparr>"

text \<open>
  For the correction loop: the generation attempts among the events of a trace, and the
  executions that ended in one of the two guardrail errors, with the message each of them
  is answered with. A trace is \<open>guardrail_terminal\<close> for a result when each such
  execution is its last event and the result is the failure outcome carrying that message.
\<close>

fun is_generation :: "agent_event \<Rightarrow> bool" where
  "is_generation (Generated prompt) = True"
| "is_generation (Executed q res) = False"

fun guardrail_answer :: "agent_event \<Rightarrow> string option" where
  "guardrail_answer (Executed q (Inl (PermissionError m))) =
     Some (''Query execution terminated by security guardrail: '' @ m)"
| "guardrail_answer (Executed q (Inl (TimeoutError m))) = Some m"
| "guardrail_answer e = None"

definition guardrail_terminal :: "agent_event list \<Rightarrow> py_error + run_outcome \<Rightarrow> bool" where
  "guardrail_terminal evs res \<longleftrightarrow>
     (\<forall>i<length evs. \<forall>a. guardrail_answer (evs ! i) = Some a \<longrightarrow>
        Suc i = length evs \<and> res = Inr (failure_outcome a))"

text \<open>
  For the patterns: what the proofs need of a matcher, for a set \<open>C\<close> of characters and a
  length \<open>n\<close>. A match consumes a front part of the text, of at least \<open>n\<close> characters,
  all of them in \<open>C\<close>; and a front part that is matched before one continuation has a
  match, possibly a longer one, before every other continuation.
\<close>

definition good :: "(char \<Rightarrow> bool) \<Rightarrow> nat \<Rightarrow> matcher \<Rightarrow> bool" where
  "good C n k \<longleftrightarrow>
     (\<forall>s r. k s = Some r \<longrightarrow> (\<exists>w. s = w @ r \<and> list_all C w \<and> n \<le> length w))
   \<and> (\<forall>w r r'. k (w @ r) = Some r \<longrightarrow> k (w @ r') \<noteq> None)"

text \<open>
  The matcher for a literal text compared after a character mapping: with the identity it
  is the one of \<open>str.replace\<close>, with \<open>lower_char\<close> it decides
  \<open>needle in text.lower()\<close>. Then the characters that a match of each pattern can
  hold, and the test that sends \<open>_mask_value\<close> into its branch for names and addresses.
\<close>

definition match_mapped :: "(char \<Rightarrow> char) \<Rightarrow> string \<Rightarrow> matcher" where
  "match_mapped f needle s =
     (if str_startswith (map f s) needle then Some (drop (length needle) s) else None)"

definition email_char :: "char \<Rightarrow> bool" where
  "email_char c = (is_local c \<or> c = CHR ''@'')"

definition phone_char :: "char \<Rightarrow> bool" where
  "phone_char c = (is_digit c \<or> is_separator c \<or> c = CHR ''('' \<or> c = CHR '')'')"

definition name_flag :: "string \<Rightarrow> bool" where
  "name_flag s \<longleftrightarrow> str_contains ''address'' (str_lower s) \<or> str_contains ''name'' (str_lower s)"

section \<open>The security check\<close>

lemma handle_db_exception_not_permission:
  "handle_db_exception e \<noteq> PermissionError m"
  by (simp add: handle_db_exception_def split: db_exception.splits)

text \<open>
  Claim C1. A statement whose trimmed, upper-cased form starts neither with \<open>SELECT\<close> nor
  with \<open>WITH\<close> is refused with the security violation (\<open>PermissionError\<close>), and the
  connector's state is left as it was: no connection is opened and nothing is executed,
  whatever the database would have done.
\<close>

theorem security_violation_before_connection:
  assumes "\<not> str_startswith (str_upper (str_strip stmt)) ''SELECT''"
    and "\<not> str_startswith (str_upper (str_strip stmt)) ''WITH''"
  shows "execute_read_only_query db c stmt =
           (Inl (PermissionError
              ''Query failed security validation. Only read (SELECT/WITH) statements are allowed.''), c)"
  using assms by (simp add: execute_read_only_query_def)

theorem security_violation_before_connection_witness:
  "\<not> str_startswith (str_upper (str_strip ''DROP TABLE Orders;'')) ''SELECT''
   \<and> \<not> str_startswith (str_upper (str_strip ''DROP TABLE Orders;'')) ''WITH''
   \<and> execute_read_only_query one_row_db (fresh_connector ()) ''DROP TABLE Orders;'' =
       (Inl (PermissionError
          ''Query failed security validation. Only read (SELECT/WITH) statements are allowed.''),
        fresh_connector ())"
proof -
  have a: "\<not> str_startswith (str_upper (str_strip ''DROP TABLE Orders;'')) ''SELECT''"
    by code_simp
  have b: "\<not> str_startswith (str_upper (str_strip ''DROP TABLE Orders;'')) ''WITH''"
    by code_simp
  from security_violation_before_connection [OF a b, of one_row_db "fresh_connector ()"] a b
  show ?thesis by simp
qed

text \<open>
  Claim C10. The check is a test on the leading characters, not on the SQL keyword: when the
  trimmed, upper-cased form starts with the characters \<open>SELECT\<close> or \<open>WITH\<close>, whatever follows
  them, the result is never the security violation and the execution block is entered (a
  connection is requested). On an open connection the statement itself, as it was given,
  is handed to the database: the result and the new database state are those of
  \<open>db_execute\<close> applied to the statement, its rows converted and its exception classified.
\<close>

theorem prefix_test_passes_to_execution:
  assumes "str_startswith (str_upper (str_strip stmt)) ''SELECT''
           \<or> str_startswith (str_upper (str_strip stmt)) ''WITH''"
  shows "(\<forall>m. fst (execute_read_only_query db c stmt) \<noteq> Inl (PermissionError m))
         \<and> take (Suc (length (db_log c))) (db_log (snd (execute_read_only_query db c stmt)))
             = db_log c @ [Connect]
         \<and> (fst (db_connect db (db_state c)) = None \<longrightarrow>
              db_log (snd (execute_read_only_query db c stmt))
                = db_log c @ [Connect, Execute stmt]
            \<and> db_state (snd (execute_read_only_query db c stmt))
                = snd (db_execute db (snd (db_connect db (db_state c))) stmt)
            \<and> fst (execute_read_only_query db c stmt)
                = (case fst (db_execute db (snd (db_connect db (db_state c))) stmt) of
                     Inl e \<Rightarrow> Inl (handle_db_exception e)
                   | Inr (column_names, tuples) \<Rightarrow>
                       Inr (map (\<lambda>t. dict_of (zip column_names t)) tuples)))"
  using assms
  by (auto simp add: execute_read_only_query_def handle_db_exception_not_permission
           split: prod.splits option.splits sum.splits)

theorem prefix_test_passes_to_execution_witness:
  "(str_startswith (str_upper (str_strip ''WITHDRAW x'')) ''SELECT''
    \<or> str_startswith (str_upper (str_strip ''WITHDRAW x'')) ''WITH'')
   \<and> fst (db_connect echo_db (db_state (fresh_connector []))) = None
   \<and> (\<forall>m. fst (execute_read_only_query echo_db (fresh_connector []) ''WITHDRAW x'')
            \<noteq> Inl (PermissionError m))
   \<and> db_log (snd (execute_read_only_query echo_db (fresh_connector []) ''WITHDRAW x''))
       = [Connect, Execute ''WITHDRAW x'']
   \<and> db_state (snd (execute_read_only_query echo_db (fresh_connector []) ''WITHDRAW x''))
       = [''WITHDRAW x'']
   \<and> fst (execute_read_only_query echo_db (fresh_connector []) ''WITHDRAW x'')
       = Inr [[(''statement'', StrV ''WITHDRAW x'')]]"
proof -
  have a: "str_startswith (str_upper (str_strip ''WITHDRAW x'')) ''SELECT''
           \<or> str_startswith (str_upper (str_strip ''WITHDRAW x'')) ''WITH''"
    by code_simp
  have b: "fst (db_connect echo_db (db_state (fresh_connector []))) = None"
    by (simp add: echo_db_def)
  from prefix_test_passes_to_execution [OF a, of echo_db "fresh_connector []"] a b
  show ?thesis by (simp add: fresh_connector_def echo_db_def dict_of_def)
qed

section \<open>The fusion contract\<close>

lemma ranks_of_Cons:
  "ranks_of d (x # xs) = (if x = d then [0] else []) @ map Suc (ranks_of d xs)"
proof -
  have "[0..<length (x # xs)] = 0 # map Suc [0..<length xs]"
    by (simp add: upt_conv_Cons map_Suc_upt del: upt_Suc)
  then show ?thesis
    by (simp add: ranks_of_def filter_map comp_def del: upt_Suc)
qed

lemma contribs_from_ranks_of:
  "contribs_from fl k r d xs = map (\<lambda>i. f_recip fl (k + int (r + i) + 1)) (ranks_of d xs)"
proof (induction xs arbitrary: r)
  case Nil
  then show ?case by (simp add: ranks_of_def)
next
  case (Cons x xs)
  then show ?case by (simp add: ranks_of_Cons comp_def)
qed

lemma keys_add_score:
  "map fst (add_score fl fs d s) = (if d \<in> set (map fst fs) then map fst fs else map fst fs @ [d])"
  by (induction fs) force+

lemma score_of_add_score:
  "score_of fl (add_score fl fs d s) d' =
     (if d' = d then f_add fl (score_of fl fs d) s else score_of fl fs d')"
  by (induction fs) (auto simp: score_of_def)

lemma index_of_less: "x \<in> set xs \<Longrightarrow> index_of xs x < length xs"
  by (induction xs) auto

lemma index_of_append:
  "index_of (xs @ ys) x = (if x \<in> set xs then index_of xs x else length xs + index_of ys x)"
  by (induction xs) auto

lemma keys_inv_step:
  assumes "keys_inv P K"
  shows "keys_inv (P @ [x]) (if x \<in> set K then K else K @ [x])"
proof -
  from assms have d: "distinct K" and s: "set K = set P"
    and o: "sorted_wrt (\<lambda>a b. index_of P a < index_of P b) K"
    by (simp_all add: keys_inv_def)
  have o': "sorted_wrt (\<lambda>a b. index_of (P @ [x]) a < index_of (P @ [x]) b) K"
    using o s by (auto simp: index_of_append elim!: sorted_wrt_mono_rel[rotated])
  show ?thesis
  proof (cases "x \<in> set K")
    case True
    then show ?thesis using d s o' by (auto simp: keys_inv_def)
  next
    case False
    then show ?thesis using d s o'
      by (auto simp: keys_inv_def sorted_wrt_append index_of_append index_of_less)
  qed
qed

lemma fuse_ranks_inv:
  assumes "fuse_ranks fl k rank ranks fs = Inr fs'" and "keys_inv P (map fst fs)"
  shows "keys_inv (P @ ranks) (map fst fs')
         \<and> (\<forall>d. score_of fl fs' d
                 = foldl (f_add fl) (score_of fl fs d) (contribs_from fl k rank d ranks))"
  using assms
proof (induction ranks arbitrary: rank fs P)
  case Nil
  then show ?case by simp
next
  case (Cons x ranks)
  let ?fs1 = "add_score fl fs x (f_recip fl (k + int rank + 1))"
  from Cons.prems(1) have r: "fuse_ranks fl k (Suc rank) ranks ?fs1 = Inr fs'"
    by (simp split: if_splits)
  have "keys_inv (P @ [x]) (map fst ?fs1)"
    using keys_inv_step[OF Cons.prems(2), of x] by (simp add: keys_add_score)
  from Cons.IH[OF r this] show ?case
    by (auto simp: score_of_add_score)
qed

lemma fuse_ranks_returns:
  assumes "0 \<le> k"
  shows "\<exists>fs'. fuse_ranks fl k rank ranks fs = Inr fs'"
proof (induction ranks arbitrary: rank fs)
  case Nil
  then show ?case by simp
next
  case (Cons x ranks)
  have "k + int rank + 1 \<noteq> 0" using assms by simp
  with Cons show ?case by simp
qed

lemma contributions_Cons:
  "contributions fl k d (ranks # results) = contribs_from fl k 0 d ranks @ contributions fl k d results"
  by (simp add: contributions_def contribs_from_ranks_of)

lemma fuse_results_inv:
  assumes "fuse_results fl k results fs = Inr fs'" and "keys_inv P (map fst fs)"
  shows "keys_inv (P @ concat results) (map fst fs')
         \<and> (\<forall>d. score_of fl fs' d
                 = foldl (f_add fl) (score_of fl fs d) (contributions fl k d results))"
  using assms
proof (induction results arbitrary: fs P)
  case Nil
  then show ?case by (simp add: contributions_def)
next
  case (Cons ranks results)
  from Cons.prems(1) obtain fs1 where
    r1: "fuse_ranks fl k 0 ranks fs = Inr fs1" and r2: "fuse_results fl k results fs1 = Inr fs'"
    by (auto split: sum.splits)
  from fuse_ranks_inv[OF r1 Cons.prems(2)] have
    k1: "keys_inv (P @ ranks) (map fst fs1)"
    and s1: "\<forall>d. score_of fl fs1 d
               = foldl (f_add fl) (score_of fl fs d) (contribs_from fl k 0 d ranks)"
    by blast+
  from Cons.IH[OF r2 k1] s1 show ?case by (simp add: contributions_Cons)
qed

lemma fuse_results_returns:
  assumes "0 \<le> k"
  shows "\<exists>fs'. fuse_results fl k results fs = Inr fs'"
proof (induction results arbitrary: fs)
  case Nil
  then show ?case by simp
next
  case (Cons ranks results)
  from fuse_ranks_returns[OF assms, of fl 0 ranks fs] obtain fs1 where
    "fuse_ranks fl k 0 ranks fs = Inr fs1" by blast
  with Cons[of fs1] show ?case by simp
qed

lemma set_insert_desc: "set (insert_desc key x ys) = insert x (set ys)"
  by (induction ys) auto

lemma set_sorted_reverse: "set (sorted_reverse key xs) = set xs"
  by (induction xs) (simp_all add: sorted_reverse_def set_insert_desc)

lemma distinct_insert_desc: "distinct (insert_desc key x ys) = (x \<notin> set ys \<and> distinct ys)"
  by (induction ys) (auto simp: set_insert_desc)

lemma distinct_sorted_reverse: "distinct (sorted_reverse key xs) = distinct xs"
  by (induction xs) (simp_all add: sorted_reverse_def distinct_insert_desc set_sorted_reverse[unfolded sorted_reverse_def])

lemma sorted_insert_desc:
  assumes "sorted_wrt (desc_then_first key pos) ys" and "\<forall>y\<in>set ys. pos x < pos y"
  shows "sorted_wrt (desc_then_first key pos) (insert_desc key x ys)"
  using assms
proof (induction ys)
  case Nil
  then show ?case by simp
next
  case (Cons y ys)
  show ?case
  proof (cases "key y \<le> key x")
    case True
    have "desc_then_first key pos x z" if "z \<in> set (y # ys)" for z
    proof -
      have "key z \<le> key y" using that Cons.prems(1)
        by (auto simp: desc_then_first_def)
      with True have "key z \<le> key x" by simp
      moreover have "pos x < pos z" using that Cons.prems(2) by auto
      ultimately show ?thesis by (auto simp: desc_then_first_def)
    qed
    with True Cons.prems(1) show ?thesis by simp
  next
    case False
    then have "desc_then_first key pos y x" by (simp add: desc_then_first_def not_le)
    with False Cons show ?thesis by (auto simp: set_insert_desc)
  qed
qed

lemma sorted_sorted_reverse:
  assumes "sorted_wrt (\<lambda>a b. pos a < pos b) xs"
  shows "sorted_wrt (desc_then_first key pos) (sorted_reverse key xs)"
  using assms
proof (induction xs)
  case Nil
  then show ?case by (simp add: sorted_reverse_def)
next
  case (Cons x xs)
  have "sorted_wrt (desc_then_first key pos) (insert_desc key x (sorted_reverse key xs))"
    using Cons by (intro sorted_insert_desc) (auto simp: set_sorted_reverse)
  then show ?case by (simp add: sorted_reverse_def)
qed

lemma rrf_result:
  assumes "reciprocal_rank_fusion fl search_results k = Inr out"
  shows "\<exists>fused.
           fuse_results fl k search_results [] = Inr fused
         \<and> (\<forall>d. score_of fl fused d = rrf_score fl k search_results d)
         \<and> set out = set (concat search_results)
         \<and> distinct out
         \<and> sorted_wrt (\<lambda>a b. rrf_score fl k search_results b < rrf_score fl k search_results a
                          \<or> (rrf_score fl k search_results a = rrf_score fl k search_results b
                             \<and> index_of (concat search_results) a < index_of (concat search_results) b)) out"
proof -
  from assms obtain fused where
    r: "fuse_results fl k search_results [] = Inr fused"
    and o: "out = sorted_reverse (\<lambda>doc_id. score_of fl fused doc_id) (map fst fused)"
    by (auto simp: reciprocal_rank_fusion_def split: sum.splits)
  have "keys_inv [] (map fst ([] :: (string \<times> 'a) list))" by (simp add: keys_inv_def)
  from fuse_results_inv[OF r this] have
    ki: "keys_inv (concat search_results) (map fst fused)"
    and sc: "\<forall>d. score_of fl fused d = foldl (f_add fl) (score_of fl [] d) (contributions fl k d search_results)"
    by auto
  have sc': "score_of fl fused = rrf_score fl k search_results"
    using sc by (auto simp: rrf_score_def score_of_def)
  have "sorted_wrt (desc_then_first (score_of fl fused) (index_of (concat search_results))) out"
    unfolding o using ki by (intro sorted_sorted_reverse) (simp add: keys_inv_def)
  then have "sorted_wrt (\<lambda>a b. rrf_score fl k search_results b < rrf_score fl k search_results a
                          \<or> (rrf_score fl k search_results a = rrf_score fl k search_results b
                             \<and> index_of (concat search_results) a < index_of (concat search_results) b)) out"
    unfolding sc' desc_then_first_def .
  moreover have "set out = set (concat search_results)" "distinct out"
    using ki by (simp_all add: o set_sorted_reverse distinct_sorted_reverse keys_inv_def)
  ultimately show ?thesis using r sc' by auto
qed

lemma rrf_returns:
  assumes "0 \<le> k"
  shows "\<exists>out. reciprocal_rank_fusion fl search_results k = Inr out"
  using fuse_results_returns[OF assms, of fl search_results "[]"]
  by (auto simp: reciprocal_rank_fusion_def)

lemma ranks_of_distinct:
  "distinct ranks \<Longrightarrow> ranks_of d ranks = (if d \<in> set ranks then [index_of ranks d] else [])"
proof (induction ranks)
  case Nil
  then show ?case by (simp add: ranks_of_def)
next
  case (Cons x xs)
  then show ?case by (auto simp: ranks_of_Cons)
qed

lemma contributions_distinct:
  assumes "\<forall>ranks\<in>set search_results. distinct ranks"
  shows "contributions fl k d search_results
           = map (\<lambda>ranks. f_recip fl (k + int (index_of ranks d) + 1))
                 (filter (\<lambda>ranks. d \<in> set ranks) search_results)"
  using assms
  by (induction search_results) (simp_all add: contributions_def ranks_of_distinct)

text \<open>
  Claim C5. For a fusion constant \<open>k \<ge> 0\<close> the function returns, and: the score
  accumulated for every identifier \<open>d\<close> is the sum, in the order of the lists, of
  \<open>1 / (k + rank + 1)\<close> over the 0-based ranks at which \<open>d\<close> occurs; when no list
  repeats an identifier this is one term \<open>1 / (k + rank(d) + 1)\<close> for each list containing
  \<open>d\<close>; the result holds exactly the identifiers that occur in some list, each once;
  and it is sorted by descending score, identifiers of equal score in the order of their
  first occurrence in the concatenation of the lists. The function has no state: its
  result is determined by the arithmetic, the lists and \<open>k\<close>.
\<close>

theorem rrf_contract:
  assumes "0 \<le> k"
  shows "\<exists>fused out.
           fuse_results fl k search_results [] = Inr fused
         \<and> reciprocal_rank_fusion fl search_results k = Inr out
         \<and> (\<forall>d. score_of fl fused d = rrf_score fl k search_results d)
         \<and> ((\<forall>ranks\<in>set search_results. distinct ranks) \<longrightarrow>
              (\<forall>d. rrf_score fl k search_results d
                   = foldl (f_add fl) (f_zero fl)
                       (map (\<lambda>ranks. f_recip fl (k + int (index_of ranks d) + 1))
                            (filter (\<lambda>ranks. d \<in> set ranks) search_results))))
         \<and> set out = set (concat search_results)
         \<and> distinct out
         \<and> sorted_wrt (\<lambda>a b. rrf_score fl k search_results b < rrf_score fl k search_results a
                          \<or> (rrf_score fl k search_results a = rrf_score fl k search_results b
                             \<and> index_of (concat search_results) a < index_of (concat search_results) b)) out"
proof -
  from rrf_returns[OF assms] obtain out where
    o: "reciprocal_rank_fusion fl search_results k = Inr out" by blast
  from rrf_result[OF o] o show ?thesis
    by (auto simp: rrf_score_def contributions_distinct)
qed

theorem rrf_contract_witness:
  "(0::int) \<le> 60
   \<and> list_all distinct [[''a'', ''b''], [''b'', ''a''], [''c'']]
   \<and> reciprocal_rank_fusion exact_arith [[''a'', ''b''], [''b'', ''a''], [''c'']] 60
       = Inr [''a'', ''b'', ''c'']
   \<and> rrf_score exact_arith 60 [[''a'', ''b''], [''b'', ''a''], [''c'']] ''a'' = 1 / 61 + 1 / 62
   \<and> rrf_score exact_arith 60 [[''a'', ''b''], [''b'', ''a''], [''c'']] ''b'' = 1 / 62 + 1 / 61
   \<and> rrf_score exact_arith 60 [[''a'', ''b''], [''b'', ''a''], [''c'']] ''c'' = 1 / 61
   \<and> (\<exists>fused. fuse_results exact_arith 60 [[''a'', ''b''], [''b'', ''a''], [''c'']] [] = Inr fused
          \<and> score_of exact_arith fused ''a'' = 1 / 61 + 1 / 62)"
proof -
  let ?L = "[[''a'', ''b''], [''b'', ''a''], [''c'']]"
  have h: "(0::int) \<le> 60" by simp
  have d: "list_all distinct ?L" by simp
  have e: "reciprocal_rank_fusion exact_arith ?L 60 = Inr [''a'', ''b'', ''c'']"
    by code_simp
  have sa: "rrf_score exact_arith 60 ?L ''a'' = 1 / 61 + 1 / 62" by code_simp
  have sb: "rrf_score exact_arith 60 ?L ''b'' = 1 / 62 + 1 / 61" by code_simp
  have sc: "rrf_score exact_arith 60 ?L ''c'' = 1 / 61" by code_simp
  from rrf_contract [OF h, of exact_arith ?L] obtain fused where
    "fuse_results exact_arith 60 ?L [] = Inr fused"
    "\<forall>d. score_of exact_arith fused d = rrf_score exact_arith 60 ?L d"
    by blast
  then have "\<exists>fused. fuse_results exact_arith 60 ?L [] = Inr fused
               \<and> score_of exact_arith fused ''a'' = 1 / 61 + 1 / 62"
    using sa by auto
  with h d e sa sb sc show ?thesis by blast
qed

text \<open>With exact arithmetic the accumulated score is the sum of the contract.\<close>

lemma rrf_score_exact:
  "rrf_score exact_arith k search_results d
     = (\<Sum>ranks\<leftarrow>search_results. \<Sum>rank\<leftarrow>ranks_of d ranks. 1 / of_int (k + int rank + 1))"
proof -
  have "foldl (+) a xs = a + sum_list xs" for a :: rat and xs
    by (induction xs arbitrary: a) (simp_all add: add.assoc)
  moreover have "sum_list (concat xss) = (\<Sum>xs\<leftarrow>xss. sum_list xs)" for xss :: "rat list list"
    by (induction xss) simp_all
  ultimately show ?thesis
    by (simp add: rrf_score_def contributions_def exact_arith_def comp_def)
qed

section \<open>The context contract\<close>

lemma aggregate_prefix:
  "\<exists>n\<le>length ts. aggregate r ts count ctx = (ctx @ map (chunk_of r) (take n ts), n < length ts)"
proof (induction ts arbitrary: count ctx)
  case Nil
  then show ?case by simp
next
  case (Cons t ts)
  let ?c = "length (fetch_full_schema_content r t) div 4"
  show ?case
  proof (cases "count + ?c \<le> TOKEN_BUDGET")
    case True
    from Cons[of "count + ?c" "ctx @ [chunk_of r t]"] obtain n where
      "n \<le> length ts"
      "aggregate r ts (count + ?c) (ctx @ [chunk_of r t])
         = ((ctx @ [chunk_of r t]) @ map (chunk_of r) (take n ts), n < length ts)"
      by blast
    with True show ?thesis
      by (intro exI[of _ "Suc n"]) (simp add: Let_def chunk_of_def)
  next
    case False
    then show ?thesis by (intro exI[of _ 0]) (simp add: Let_def)
  qed
qed

lemma aggregate_budget:
  assumes "token_cost ctx = count" and "count \<le> TOKEN_BUDGET"
  shows "token_cost (fst (aggregate r ts count ctx)) \<le> TOKEN_BUDGET"
  using assms
proof (induction ts arbitrary: count ctx)
  case Nil
  then show ?case by simp
next
  case (Cons t ts)
  let ?c = "length (fetch_full_schema_content r t) div 4"
  show ?case
  proof (cases "count + ?c \<le> TOKEN_BUDGET")
    case True
    have "token_cost (ctx @ [\<lparr>table_name = t, content = fetch_full_schema_content r t\<rparr>]) = count + ?c"
      using Cons.prems(1) by (simp add: token_cost_def)
    from Cons.IH[OF this True] True show ?thesis by (simp add: Let_def)
  next
    case False
    with Cons.prems show ?thesis by (simp add: Let_def)
  qed
qed

lemma table_name_chunk_of: "map table_name (map (chunk_of r) ts) = ts"
  by (induction ts) (simp_all add: chunk_of_def)

lemma missing_iff_proper_prefix:
  assumes "distinct ts" and "n \<le> length ts"
  shows "(\<exists>t\<in>set ts. t \<notin> set (take n ts)) \<longleftrightarrow> n < length ts"
proof
  assume "\<exists>t\<in>set ts. t \<notin> set (take n ts)"
  then show "n < length ts" using assms(2) by (cases "n = length ts") auto
next
  assume l: "n < length ts"
  have "ts ! n \<notin> set (take n ts)"
  proof
    assume "ts ! n \<in> set (take n ts)"
    then obtain i where "i < n" "take n ts ! i = ts ! n"
      using l by (auto simp: in_set_conv_nth)
    then have "ts ! i = ts ! n" "i < n" by simp_all
    with assms(1) l show False by (auto simp: distinct_conv_nth)
  qed
  with l show "\<exists>t\<in>set ts. t \<notin> set (take n ts)" by (intro bexI[of _ "ts ! n"]) simp_all
qed

lemma aggregate_contract:
  assumes "distinct fused_ranks"
  shows "\<exists>ctx truncated. aggregate r fused_ranks 0 [] = (ctx, truncated)
           \<and> token_cost ctx \<le> TOKEN_BUDGET
           \<and> (truncated \<longleftrightarrow> (\<exists>t\<in>set fused_ranks. t \<notin> set (map table_name ctx)))"
proof -
  from aggregate_prefix[of fused_ranks r 0 "[]"] obtain n where
    n: "n \<le> length fused_ranks"
    and a: "aggregate r fused_ranks 0 [] = (map (chunk_of r) (take n fused_ranks), n < length fused_ranks)"
    by auto
  have "token_cost (fst (aggregate r fused_ranks 0 [])) \<le> TOKEN_BUDGET"
    by (rule aggregate_budget) (simp_all add: token_cost_def)
  with a have b: "token_cost (map (chunk_of r) (take n fused_ranks)) \<le> TOKEN_BUDGET" by simp
  have c: "(n < length fused_ranks)
      \<longleftrightarrow> (\<exists>t\<in>set fused_ranks. t \<notin> set (map table_name (map (chunk_of r) (take n fused_ranks))))"
    unfolding table_name_chunk_of using missing_iff_proper_prefix[OF assms n] by simp
  show ?thesis
  proof (intro exI conjI)
    show "aggregate r fused_ranks 0 []
            = (map (chunk_of r) (take n fused_ranks), n < length fused_ranks)" by (rule a)
    show "token_cost (map (chunk_of r) (take n fused_ranks)) \<le> TOKEN_BUDGET" by (rule b)
    show "(n < length fused_ranks)
      \<longleftrightarrow> (\<exists>t\<in>set fused_ranks. t \<notin> set (map table_name (map (chunk_of r) (take n fused_ranks))))"
      by (rule c)
  qed
qed

text \<open>
  Claim C4. Whenever both searches return and the fusion yields a ranking,
  \<open>retrieve_schema_chunks\<close> returns a context whose estimated token costs,
  \<open>len(content) // 4\<close> for each chunk, add up to at most \<open>TOKEN_BUDGET\<close>, and its
  truncation flag is set exactly when some identifier of the fused ranking has no chunk in
  the context.
\<close>

theorem context_within_budget:
  assumes "semantic_search r query = Inr vector_ranks"
    and "keyword_search r query = Inr keyword_ranks"
    and "reciprocal_rank_fusion fl [vector_ranks, keyword_ranks] (k_rrf r) = Inr fused_ranks"
  shows "\<exists>ctx truncated. retrieve_schema_chunks fl r query = Inr (ctx, truncated)
           \<and> token_cost ctx \<le> TOKEN_BUDGET
           \<and> (truncated \<longleftrightarrow> (\<exists>t\<in>set fused_ranks. t \<notin> set (map table_name ctx)))"
proof -
  from rrf_result[OF assms(3)] have "distinct fused_ranks" by blast
  from aggregate_contract[OF this, of r] show ?thesis
    using assms by (auto simp: retrieve_schema_chunks_def)
qed

theorem context_within_budget_witness:
  "semantic_search demo_retriever demo_query
     = Inr [''Customers'', ''Orders'', ''SalesLogs'', ''Employees'']
   \<and> keyword_search demo_retriever demo_query
     = Inr [''Orders'', ''Products'', ''SalesLogs'', ''Customers'']
   \<and> reciprocal_rank_fusion exact_arith
        [[''Customers'', ''Orders'', ''SalesLogs'', ''Employees''],
         [''Orders'', ''Products'', ''SalesLogs'', ''Customers'']] (k_rrf demo_retriever)
     = Inr [''Orders'', ''Customers'', ''SalesLogs'', ''Products'', ''Employees'']
   \<and> retrieve_schema_chunks exact_arith demo_retriever demo_query
     = Inr ([\<lparr>table_name = ''Orders'', content = ''# Table: Orders...''\<rparr>], True)
   \<and> token_cost [\<lparr>table_name = ''Orders'', content = ''# Table: Orders...''\<rparr>] \<le> TOKEN_BUDGET
   \<and> ''Customers'' \<notin> set (map table_name [\<lparr>table_name = ''Orders'', content = ''# Table: Orders...''\<rparr>])"
proof -
  have a: "semantic_search demo_retriever demo_query
             = Inr [''Customers'', ''Orders'', ''SalesLogs'', ''Employees'']"
    by code_simp
  have b: "keyword_search demo_retriever demo_query
             = Inr [''Orders'', ''Products'', ''SalesLogs'', ''Customers'']"
    by code_simp
  have c: "reciprocal_rank_fusion exact_arith
             [[''Customers'', ''Orders'', ''SalesLogs'', ''Employees''],
              [''Orders'', ''Products'', ''SalesLogs'', ''Customers'']] (k_rrf demo_retriever)
           = Inr [''Orders'', ''Customers'', ''SalesLogs'', ''Products'', ''Employees'']"
    by code_simp
  have d: "retrieve_schema_chunks exact_arith demo_retriever demo_query
             = Inr ([\<lparr>table_name = ''Orders'', content = ''# Table: Orders...''\<rparr>], True)"
    by code_simp
  from context_within_budget [OF a b c] d
  have "token_cost [\<lparr>table_name = ''Orders'', content = ''# Table: Orders...''\<rparr>] \<le> TOKEN_BUDGET"
    by auto
  with a b c d show ?thesis by simp
qed

section \<open>Errors of the search providers\<close>

text \<open>
  Claim C6, as the specification states it, asks that a provider that raises contributes
  an empty ranked list and that retrieval goes on with the other ranking. The code has no
  handler around either search: with the semantic index raising, retrieval ends with that
  error, where the same retriever with a semantic index returning the empty list yields a
  context.
\<close>

theorem provider_error_counterexample:
  "semantic_search (HybridSearchRetriever (failing_index ''index down'') (MockKeywordIndex demo_store))
      demo_query = Inl (ProviderError ''index down'')
   \<and> retrieve_schema_chunks exact_arith
        (HybridSearchRetriever (failing_index ''index down'') (MockKeywordIndex demo_store)) demo_query
       = Inl (ProviderError ''index down'')
   \<and> retrieve_schema_chunks exact_arith
        (HybridSearchRetriever
           \<lparr>query_top_k = (\<lambda>query k. Inr []), get_content = get_content (failing_index ''index down'')\<rparr>
           (MockKeywordIndex demo_store)) demo_query
       = Inr ([\<lparr>table_name = ''Orders'',
                content = ''# Table: Orders'' @ [CHR 0x0A] @ ''Error: Schema content missing from index.''\<rparr>,
               \<lparr>table_name = ''Products'',
                content = ''# Table: Products'' @ [CHR 0x0A] @ ''Error: Schema content missing from index.''\<rparr>,
               \<lparr>table_name = ''SalesLogs'',
                content = ''# Table: SalesLogs'' @ [CHR 0x0A] @ ''Error: Schema content missing from index.''\<rparr>,
               \<lparr>table_name = ''Customers'',
                content = ''# Table: Customers'' @ [CHR 0x0A] @ ''Error: Schema content missing from index.''\<rparr>],
              False)"
  by code_simp

text \<open>
  Claim C6, amended. An error of a search provider ends the retrieval: if the semantic
  search raises, or it returns and the lexical search raises, \<open>retrieve_schema_chunks\<close>
  raises that same error, and neither fusion nor aggregation takes place.
\<close>

theorem provider_error_aborts:
  assumes "semantic_search r query = Inl e
           \<or> (\<exists>vector_ranks. semantic_search r query = Inr vector_ranks) \<and> keyword_search r query = Inl e"
  shows "retrieve_schema_chunks fl r query = Inl e"
  using assms by (auto simp: retrieve_schema_chunks_def)

theorem provider_error_aborts_witness:
  "(\<exists>vector_ranks. semantic_search
        (HybridSearchRetriever (MockVectorDB demo_store) (failing_index ''lexical index down''))
        demo_query = Inr vector_ranks)
   \<and> keyword_search
        (HybridSearchRetriever (MockVectorDB demo_store) (failing_index ''lexical index down''))
        demo_query = Inl (ProviderError ''lexical index down'')
   \<and> retrieve_schema_chunks exact_arith
        (HybridSearchRetriever (MockVectorDB demo_store) (failing_index ''lexical index down''))
        demo_query = Inl (ProviderError ''lexical index down'')"
proof -
  let ?r = "HybridSearchRetriever (MockVectorDB demo_store) (failing_index ''lexical index down'')"
  have a: "semantic_search ?r demo_query = Inr [''Customers'', ''Orders'', ''SalesLogs'', ''Employees'']"
    by code_simp
  have b: "keyword_search ?r demo_query = Inl (ProviderError ''lexical index down'')"
    by code_simp
  from a b have "semantic_search ?r demo_query = Inl (ProviderError ''lexical index down'')
      \<or> (\<exists>vector_ranks. semantic_search ?r demo_query = Inr vector_ranks)
        \<and> keyword_search ?r demo_query = Inl (ProviderError ''lexical index down'')"
    by blast
  from provider_error_aborts [OF this, of exact_arith] a b show ?thesis by blast
qed

section \<open>The correction loop\<close>

lemma guardrail_terminal_Nil: "guardrail_terminal [] res"
  by (simp add: guardrail_terminal_def)

lemma guardrail_terminal_Cons:
  assumes "guardrail_answer e = None" and "guardrail_terminal evs res"
  shows "guardrail_terminal (e # evs) res"
  using assms unfolding guardrail_terminal_def
  by (auto simp: nth_Cons split: nat.splits)

lemma guardrail_terminal_single:
  assumes "\<And>a. guardrail_answer e = Some a \<Longrightarrow> res = Inr (failure_outcome a)"
  shows "guardrail_terminal [e] res"
  using assms unfolding guardrail_terminal_def by auto

lemma generate_sql_world:
  assumes "generate_sql agent user_query schema_context attempt ed w = ((sq, resp), w1)"
  shows "trace w1 = trace w @ [Generated (build_sql_prompt user_query schema_context (attempt > 0) ed)]
         \<and> connector w1 = connector w"
  using assms
  by (auto simp: generate_sql_def Let_def split: prod.splits option.splits if_splits)

lemma attempt_loop_trace:
  assumes "attempt_loop agent user_query schema_context attempts full_result w = (res, w')"
  shows "\<exists>evs. trace w' = trace w @ evs
           \<and> length (filter is_generation evs) \<le> length attempts
           \<and> guardrail_terminal evs res"
  using assms
proof (induction attempts arbitrary: full_result w)
  case Nil
  then show ?case by (simp add: guardrail_terminal_Nil)
next
  case (Cons attempt attempts)
  obtain sq resp w1 where
    g: "generate_sql agent user_query schema_context attempt (error_details full_result) w
          = ((sq, resp), w1)"
    by (metis prod.exhaust)
  from generate_sql_world[OF g] obtain p where
    t1: "trace w1 = trace w @ [Generated p]" by blast
  have gen: "guardrail_answer (Generated p) = None" by simp
  show ?case
  proof (cases sq)
    case None
    with Cons.prems g have
      "attempt_loop agent user_query schema_context attempts
         (full_result\<lparr>answer := ''LLM failed to generate parseable SQL after ''
                                     @ string_of_nat attempt @ '' attempts.''\<rparr>) w1 = (res, w')"
      by simp
    from Cons.IH[OF this] obtain evs where
      "trace w' = trace w1 @ evs" "length (filter is_generation evs) \<le> length attempts"
      "guardrail_terminal evs res" by blast
    with t1 gen show ?thesis
      by (intro exI[of _ "Generated p # evs"]) (simp add: guardrail_terminal_Cons)
  next
    case (Some q)
    obtain r c2 where e: "execute_read_only_query (db_connector agent) (connector w1) q = (r, c2)"
      by (metis prod.exhaust)
    let ?w2 = "w1\<lparr>connector := c2, trace := trace w1 @ [Executed q r]\<rparr>"
    have t2: "trace ?w2 = trace w @ [Generated p, Executed q r]" using t1 by simp
    have stop: ?thesis if "w' = ?w2"
      and "\<And>a. guardrail_answer (Executed q r) = Some a \<Longrightarrow> res = Inr (failure_outcome a)"
    proof -
      have "guardrail_terminal [Generated p, Executed q r] res"
        using that(2) by (intro guardrail_terminal_Cons guardrail_terminal_single) simp_all
      with t2 that(1) show ?thesis
        by (intro exI[of _ "[Generated p, Executed q r]"]) simp
    qed
    show ?thesis
    proof (cases r)
      case (Inr rows)
      with Cons.prems g Some e show ?thesis by (intro stop) (auto simp: Let_def)
    next
      case (Inl err)
      show ?thesis
      proof (cases err)
        case (ValueError m)
        let ?fr = "full_result\<lparr>error_details := Some \<lparr>ed_query = q, ed_error = m\<rparr>\<rparr>"
        show ?thesis
        proof (cases "attempt = MAX_RETRY_COUNT")
          case True
          with Cons.prems g Some e Inl ValueError show ?thesis
            by (intro stop) (auto simp: Let_def)
        next
          case False
          with Cons.prems g Some e Inl ValueError have
            "attempt_loop agent user_query schema_context attempts ?fr ?w2 = (res, w')"
            by (simp add: Let_def)
          from Cons.IH[OF this] obtain evs where
            "trace w' = trace ?w2 @ evs" "length (filter is_generation evs) \<le> length attempts"
            "guardrail_terminal evs res" by blast
          with t2 Inl ValueError show ?thesis
            by (intro exI[of _ "Generated p # Executed q r # evs"])
               (simp add: guardrail_terminal_Cons)
        qed
      qed (use Cons.prems g Some e Inl in \<open>(intro stop; auto simp: Let_def)+\<close>)
    qed
  qed
qed

lemma run_trace:
  assumes "run fl agent user_query w0 = (res, w)"
  shows "\<exists>evs. trace w = trace w0 @ evs
           \<and> length (filter is_generation evs) \<le> MAX_RETRY_COUNT + 1
           \<and> guardrail_terminal evs res"
proof (cases "retrieve_schema_chunks fl (retriever agent) user_query")
  case (Inl e)
  with assms show ?thesis
    by (auto simp: run_def guardrail_terminal_Nil)
next
  case (Inr cx)
  obtain schema_context truncation_warning where cx: "cx = (schema_context, truncation_warning)"
    by (cases cx)
  show ?thesis
  proof (cases "schema_context = []")
    case True
    with assms Inr cx show ?thesis
      by (auto simp: run_def guardrail_terminal_Nil)
  next
    case False
    with assms Inr cx have
      "attempt_loop agent user_query schema_context [0..<MAX_RETRY_COUNT + 1]
         (failure_outcome ''Could not generate or execute a valid query.'') w0 = (res, w)"
      by (simp add: run_def)
    from attempt_loop_trace[OF this] show ?thesis by simp
  qed
qed

lemma run_generation_bound:
  assumes "run fl agent user_query (initial_world g d) = (res, w)"
  shows "length (filter is_generation (trace w)) \<le> MAX_RETRY_COUNT + 1"
  using run_trace[OF assms] by (auto simp: initial_world_def)



section \<open>Exceptions that leave the run\<close>

text \<open>
  The connector raises one of four exceptions. The loop answers three of them; the
  fourth, the \<open>RuntimeError\<close> it raises for any exception of the driver that is not an
  \<open>OperationalError\<close>, is not named by the \<open>except\<close> clause of the loop. An exception
  that leaves \<open>run\<close> is therefore an error of the retrieval or that \<open>RuntimeError\<close>, raised
  by the last execution.
\<close>

lemma handle_db_exception_cases:
  "\<exists>m. handle_db_exception x = TimeoutError m \<or> handle_db_exception x = ValueError m
       \<or> handle_db_exception x = RuntimeError m"
  by (cases x) (simp_all add: handle_db_exception_def)

lemma execute_read_only_query_errors:
  assumes "execute_read_only_query db c q = (Inl e, c')"
  shows "\<exists>m. e = PermissionError m \<or> e = TimeoutError m \<or> e = ValueError m \<or> e = RuntimeError m"
proof (cases "str_startswith (str_upper (str_strip q)) ''SELECT''
              \<or> str_startswith (str_upper (str_strip q)) ''WITH''")
  case False
  with assms have "e = PermissionError
      ''Query failed security validation. Only read (SELECT/WITH) statements are allowed.''"
    by (simp add: execute_read_only_query_def)
  then show ?thesis by (intro exI) (rule disjI1)
next
  case True
  with assms obtain x where "e = handle_db_exception x"
    by (auto simp: execute_read_only_query_def split: prod.splits option.splits sum.splits)
  with handle_db_exception_cases[of x] show ?thesis by auto
qed

lemma attempt_loop_raises:
  assumes "attempt_loop agent user_query schema_context attempts full_result w = (Inl e, w')"
  shows "\<exists>q m. e = RuntimeError m \<and> trace w' \<noteq> [] \<and> last (trace w') = Executed q (Inl e)"
  using assms
proof (induction attempts arbitrary: full_result w)
  case Nil
  then show ?case by simp
next
  case (Cons attempt attempts)
  obtain sq resp w1 where
    g: "generate_sql agent user_query schema_context attempt (error_details full_result) w
          = ((sq, resp), w1)"
    by (metis prod.exhaust)
  show ?case
  proof (cases sq)
    case None
    with Cons.prems g have
      "attempt_loop agent user_query schema_context attempts
         (full_result\<lparr>answer := ''LLM failed to generate parseable SQL after ''
                                     @ string_of_nat attempt @ '' attempts.''\<rparr>) w1 = (Inl e, w')"
      by simp
    from Cons.IH[OF this] show ?thesis .
  next
    case (Some q)
    obtain r c2 where ex: "execute_read_only_query (db_connector agent) (connector w1) q = (r, c2)"
      by (metis prod.exhaust)
    let ?w2 = "w1\<lparr>connector := c2, trace := trace w1 @ [Executed q r]\<rparr>"
    show ?thesis
    proof (cases r)
      case (Inr rows)
      with Cons.prems g Some ex show ?thesis by (simp add: Let_def)
    next
      case (Inl err)
      from execute_read_only_query_errors[OF ex[unfolded Inl]] obtain m where
        k: "err = PermissionError m \<or> err = TimeoutError m \<or> err = ValueError m \<or> err = RuntimeError m"
        by blast
      show ?thesis
      proof (cases "err = ValueError m \<and> attempt \<noteq> MAX_RETRY_COUNT")
        case True
        with Cons.prems g Some ex Inl have
          "attempt_loop agent user_query schema_context attempts
             (full_result\<lparr>error_details := Some \<lparr>ed_query = q, ed_error = m\<rparr>\<rparr>) ?w2 = (Inl e, w')"
          by (simp add: Let_def)
        from Cons.IH[OF this] show ?thesis .
      next
        case False
        with k Cons.prems g Some ex Inl show ?thesis
          by (auto simp: Let_def)
      qed
    qed
  qed
qed

lemma run_raises:
  assumes "run fl agent user_query w0 = (Inl e, w)"
  shows "retrieve_schema_chunks fl (retriever agent) user_query = Inl e
         \<or> (\<exists>q m. e = RuntimeError m \<and> trace w \<noteq> [] \<and> last (trace w) = Executed q (Inl e))"
  using assms attempt_loop_raises
  by (fastforce simp: run_def split: sum.splits prod.splits if_splits)

text \<open>
  Claim C3 asks that a run makes at most \<open>MAX_RETRY_COUNT + 1\<close> generation attempts and
  always ends in a success or a failure outcome. The bound holds on every run, by
  \<open>run_generation_bound\<close> above, and a run always ends. It does not always end in an
  outcome: when the first statement fails with a recoverable error and the database then
  raises an exception that is not an \<open>OperationalError\<close>, the run, after its two
  generation attempts, raises \<open>RuntimeError\<close> and returns no outcome.
\<close>

theorem run_ends_without_outcome:
  "fst (run exact_arith demo_agent ''total?''
          (initial_world [select_response, select_response]
             [Inl (OperationalError ''column x does not exist''
                                    ''OperationalError(column x does not exist)''),
              Inl (OtherException ''InterfaceError(connection already closed)'')]))
     = Inl (RuntimeError
         ''A general error occurred during database operation: InterfaceError(connection already closed)'')
   \<and> length (filter is_generation
        (trace (snd (run exact_arith demo_agent ''total?''
          (initial_world [select_response, select_response]
             [Inl (OperationalError ''column x does not exist''
                                    ''OperationalError(column x does not exist)''),
              Inl (OtherException ''InterfaceError(connection already closed)'')]))))) = 2"
  by code_simp

text \<open>
  Claim C7 asks that no exception leaves \<open>run\<close>, every failure being returned as an
  outcome with the status failure. One does: with a generator that answers a \<open>SELECT\<close>
  statement and a database whose driver raises an exception other than
  \<open>OperationalError\<close> on executing it, the connector raises \<open>RuntimeError\<close>, which the
  loop does not catch; the caller gets the exception, not a failure outcome.
\<close>

theorem internal_failure_escapes_run:
  "fst (run exact_arith demo_agent ''total?''
          (initial_world [select_response]
             [Inl (OtherException ''ProgrammingError(column x does not exist)'')]))
     = Inl (RuntimeError
         ''A general error occurred during database operation: ProgrammingError(column x does not exist)'')"
  by code_simp

section \<open>Matches and replacements\<close>

text \<open>Every construct of a pattern keeps the property \<open>good\<close>.\<close>

lemma goodI:
  assumes "\<And>s r. k s = Some r \<Longrightarrow> \<exists>w. s = w @ r \<and> list_all C w \<and> n \<le> length w"
    and "\<And>w r r'. k (w @ r) = Some r \<Longrightarrow> k (w @ r') \<noteq> None"
  shows "good C n k"
  using assms unfolding good_def by blast

lemma good_consumed:
  assumes "good C n k" and "k s = Some r"
  obtains w where "s = w @ r" and "list_all C w" and "n \<le> length w"
  using assms unfolding good_def by blast

lemma good_extend:
  assumes "good C n k" and "k (w @ r) = Some r"
  shows "k (w @ r') \<noteq> None"
  using assms unfolding good_def by blast

lemma good_accept: "good C 0 accept"
  by (rule goodI) (auto simp: accept_def)

lemma good_one_of:
  assumes k: "good C n k" and P: "\<And>c. P c \<Longrightarrow> C c"
  shows "good C (Suc n) (one_of P k)"
proof (rule goodI)
  fix s r assume "one_of P k s = Some r"
  then obtain c cs where s: "s = c # cs" and c: "P c" and r: "k cs = Some r"
    by (auto simp: one_of_def split: list.splits if_splits)
  from good_consumed[OF k r] obtain w where "cs = w @ r" "list_all C w" "n \<le> length w" .
  with s c P show "\<exists>w. s = w @ r \<and> list_all C w \<and> Suc n \<le> length w"
    by (intro exI[of _ "c # w"]) simp
next
  fix w r r' assume a: "one_of P k (w @ r) = Some r"
  then obtain c cs where s: "w @ r = c # cs" and c: "P c" and r: "k cs = Some r"
    by (auto simp: one_of_def split: list.splits if_splits)
  from good_consumed[OF k r] obtain v where v: "cs = v @ r" .
  with s have "w @ r = (c # v) @ r" by simp
  then have w: "w = c # v" by simp
  from r v have "k (v @ r) = Some r" by simp
  from good_extend[OF k this] have "k (v @ r') \<noteq> None" .
  with w c show "one_of P k (w @ r') \<noteq> None" by (simp add: one_of_def)
qed

lemma good_lit:
  assumes "good C n k" and "C c"
  shows "good C (Suc n) (lit c k)"
  unfolding lit_def using assms by (intro good_one_of) auto

lemma good_exactly:
  assumes "good C n k" and "\<And>c. P c \<Longrightarrow> C c"
  shows "good C (m + n) (exactly m P k)"
  using assms by (induction m) (auto intro: good_one_of)

lemma backtrack_Some:
  assumes "backtrack k s lo j = Some r"
  shows "\<exists>i. lo \<le> i \<and> i \<le> j \<and> k (drop i s) = Some r"
  using assms
proof (induction j)
  case 0
  then show ?case by (auto split: if_splits)
next
  case (Suc j)
  show ?case
  proof (cases "k (drop (Suc j) s)")
    case None
    with Suc.prems have "backtrack k s lo j = Some r" and "lo \<le> Suc j"
      by (auto split: if_splits)
    with Suc.IH show ?thesis by (meson le_SucI)
  next
    case (Some a)
    with Suc.prems have "a = r" "lo \<le> Suc j" by (auto split: if_splits)
    with Some show ?thesis by blast
  qed
qed

lemma backtrack_not_None:
  assumes "lo \<le> i" and "i \<le> j" and "k (drop i s) \<noteq> None"
  shows "backtrack k s lo j \<noteq> None"
  using assms
proof (induction j)
  case 0
  then show ?case by simp
next
  case (Suc j)
  show ?case
  proof (cases "i = Suc j")
    case True
    with Suc.prems show ?thesis by auto
  next
    case False
    with Suc.prems have "i \<le> j" by simp
    from Suc.IH[OF Suc.prems(1) this Suc.prems(3)] Suc.prems(1) \<open>i \<le> j\<close>
    show ?thesis by (auto split: option.splits)
  qed
qed

lemma take_takeWhile_all:
  assumes "i \<le> length (takeWhile P s)"
  shows "list_all P (take i s)"
proof -
  have "take i s = take i (takeWhile P s)"
    using assms by (metis append_eq_conv_conj takeWhile_dropWhile_id take_append min.absorb2 take_take
        diff_is_0_eq take_0 append_Nil2)
  moreover have "list_all P (takeWhile P s)"
    by (simp add: list_all_iff) (meson set_takeWhileD)
  ultimately show ?thesis
    by (metis list_all_append append_take_drop_id)
qed

lemma takeWhile_length_ge:
  assumes "list_all P u"
  shows "length u \<le> length (takeWhile P (u @ t))"
  using assms by (induction u) auto

lemma good_greedy:
  assumes k: "good C n k" and P: "\<And>c. P c \<Longrightarrow> C c"
  shows "good C (lo + n) (greedy P lo k)"
proof (rule goodI)
  fix s r assume "greedy P lo k s = Some r"
  then obtain i where i: "lo \<le> i" "i \<le> length (takeWhile P s)" and r: "k (drop i s) = Some r"
    unfolding greedy_def by (blast dest: backtrack_Some)
  from good_consumed[OF k r] obtain w where w: "drop i s = w @ r" "list_all C w" "n \<le> length w" .
  have "list_all P (take i s)" using i(2) by (rule take_takeWhile_all)
  then have c: "list_all C (take i s)" using P by (auto simp: list_all_iff)
  have il: "i \<le> length s" using i(2) length_takeWhile_le[of P s] by simp
  have "s = (take i s @ w) @ r" using w(1) by (metis append_take_drop_id append_assoc)
  moreover have "list_all C (take i s @ w)" using c w(2) by simp
  moreover have "lo + n \<le> length (take i s @ w)" using i(1) il w(3) by simp
  ultimately show "\<exists>w. s = w @ r \<and> list_all C w \<and> lo + n \<le> length w" by blast
next
  fix w r r' assume "greedy P lo k (w @ r) = Some r"
  then obtain i where i: "lo \<le> i" "i \<le> length (takeWhile P (w @ r))"
    and r: "k (drop i (w @ r)) = Some r"
    unfolding greedy_def by (blast dest: backtrack_Some)
  from good_consumed[OF k r] obtain v where v: "drop i (w @ r) = v @ r" .
  then have "length (w @ r) - i = length v + length r" by (metis length_drop length_append)
  moreover have "i \<le> length (w @ r)" using i(2) length_takeWhile_le[of P "w @ r"] by simp
  ultimately have iw: "i \<le> length w" by simp
  with v have dv: "drop i w = v" by simp
  have "list_all P (take i (w @ r))" using i(2) by (rule take_takeWhile_all)
  with iw have tp: "list_all P (take i w)" by simp
  have e: "take i w @ (drop i w @ r') = w @ r'" by simp
  have "length (take i w) \<le> length (takeWhile P (take i w @ (drop i w @ r')))"
    by (rule takeWhile_length_ge[OF tp])
  then have "length (take i w) \<le> length (takeWhile P (w @ r'))"
    unfolding e .
  with iw have n': "i \<le> length (takeWhile P (w @ r'))" by simp
  from r dv iw have "k (drop i w @ r) = Some r" by simp
  from good_extend[OF k this] have "k (drop i w @ r') \<noteq> None" .
  with iw have "k (drop i (w @ r')) \<noteq> None" by simp
  from backtrack_not_None[of lo i "length (takeWhile P (w @ r'))" k "w @ r'", OF i(1) n' this]
  show "greedy P lo k (w @ r') \<noteq> None"
    by (simp add: greedy_def)
qed

lemma good_lazy_optional:
  assumes k: "good C n k" and P: "\<And>c. P c \<Longrightarrow> C c"
  shows "good C n (lazy_optional P k)"
proof (rule goodI)
  fix s r assume a: "lazy_optional P k s = Some r"
  show "\<exists>w. s = w @ r \<and> list_all C w \<and> n \<le> length w"
  proof (cases "k s")
    case (Some x)
    with a have "k s = Some r" by (simp add: lazy_optional_def)
    from good_consumed[OF k this] show ?thesis by blast
  next
    case None
    with a have "one_of P k s = Some r" by (simp add: lazy_optional_def)
    from good_consumed[OF good_one_of[OF k P] this] obtain w where
      "s = w @ r" "list_all C w" "Suc n \<le> length w" by blast
    then show ?thesis by (intro exI[of _ w]) simp
  qed
next
  fix w r r' assume a: "lazy_optional P k (w @ r) = Some r"
  show "lazy_optional P k (w @ r') \<noteq> None"
  proof (cases "k (w @ r)")
    case (Some x)
    with a have "k (w @ r) = Some r" by (simp add: lazy_optional_def)
    from good_extend[OF k this, of r'] show ?thesis
      by (auto simp: lazy_optional_def split: option.splits)
  next
    case None
    with a have "one_of P k (w @ r) = Some r" by (simp add: lazy_optional_def)
    from good_extend[OF good_one_of[OF k P] this] have "one_of P k (w @ r') \<noteq> None"
      by blast
    then show ?thesis by (auto simp: lazy_optional_def split: option.splits)
  qed
qed

lemma good_alternative:
  assumes p: "good C n p" and q: "good C n q"
  shows "good C n (alternative p q)"
proof (rule goodI)
  fix s r assume a: "alternative p q s = Some r"
  then have "p s = Some r \<or> q s = Some r"
    by (auto simp: alternative_def split: option.splits)
  then show "\<exists>w. s = w @ r \<and> list_all C w \<and> n \<le> length w"
    using good_consumed[OF p] good_consumed[OF q] by metis
next
  fix w r r' assume a: "alternative p q (w @ r) = Some r"
  then have "p (w @ r) = Some r \<or> q (w @ r) = Some r"
    by (auto simp: alternative_def split: option.splits)
  then have "p (w @ r') \<noteq> None \<or> q (w @ r') \<noteq> None"
    using good_extend[OF p] good_extend[OF q] by blast
  then show "alternative p q (w @ r') \<noteq> None"
    by (auto simp: alternative_def split: option.splits)
qed

lemma good_weaken:
  assumes "good C n k" and "n' \<le> n"
  shows "good C n' k"
proof (rule goodI)
  fix s r assume "k s = Some r"
  from good_consumed[OF assms(1) this] obtain w where "s = w @ r" "list_all C w" "n \<le> length w" .
  with assms(2) show "\<exists>w. s = w @ r \<and> list_all C w \<and> n' \<le> length w"
    by (intro exI[of _ w]) simp
next
  fix w r r' assume "k (w @ r) = Some r"
  from good_extend[OF assms(1) this] show "k (w @ r') \<noteq> None" .
qed

lemma re_search_append:
  "re_search m (a @ b) \<longleftrightarrow> (\<exists>i<length a. m (drop i a @ b) \<noteq> None) \<or> re_search m b"
proof (induction a)
  case Nil
  then show ?case by simp
next
  case (Cons c a)
  have "(\<exists>i<length (c # a). m (drop i (c # a) @ b) \<noteq> None)
        \<longleftrightarrow> m (c # a @ b) \<noteq> None \<or> (\<exists>i<length a. m (drop i a @ b) \<noteq> None)"
    by (auto simp: less_Suc_eq_0_disj)
  with Cons show ?case by auto
qed

lemma re_search_drop:
  assumes "re_search m (drop i s)"
  shows "re_search m s"
proof -
  have "re_search m (take i s @ drop i s)"
    using assms by (subst re_search_append) simp
  then show ?thesis by simp
qed

lemma re_search_suffix:
  assumes "re_search m r"
  shows "re_search m (w @ r)"
  using assms by (subst re_search_append) simp

lemma re_sub_no_match:
  assumes "\<not> re_search m s"
  shows "re_sub m repl s = s"
  using assms by (induction s) auto

text \<open>A match that starts in front of a replaced text starts in front of the original one.\<close>

lemma match_in_front:
  assumes m: "good C n m" and t: "tok \<noteq> []" "\<not> C (hd tok)"
    and a: "m (x @ re_sub m' tok s) \<noteq> None"
  shows "m (x @ s) \<noteq> None"
  using a
proof (induction s arbitrary: x rule: length_induct)
  case (1 s)
  show ?case
  proof (cases s)
    case Nil
    with "1.prems" show ?thesis by simp
  next
    case (Cons c cs)
    show ?thesis
    proof (cases "\<exists>rest. m' (c # cs) = Some rest \<and> length rest \<le> length cs")
      case False
      then have "re_sub m' tok (c # cs) = c # re_sub m' tok cs"
        by (auto split: option.splits)
      with "1.prems" Cons have "m ((x @ [c]) @ re_sub m' tok cs) \<noteq> None" by simp
      moreover have "length cs < length s" using Cons by simp
      ultimately have "m ((x @ [c]) @ cs) \<noteq> None" using "1.IH" by blast
      with Cons show ?thesis by simp
    next
      case True
      then obtain rest where r: "m' (c # cs) = Some rest" "length rest \<le> length cs" by blast
      then have e: "re_sub m' tok (c # cs) = tok @ re_sub m' tok rest" by simp
      let ?R = "re_sub m' tok rest"
      from "1.prems" e Cons obtain r' where r': "m (x @ tok @ ?R) = Some r'" by auto
      from good_consumed[OF m r'] obtain w where
        w: "x @ tok @ ?R = w @ r'" "list_all C w" by blast
      have lw: "length w \<le> length x"
      proof (rule ccontr)
        assume "\<not> length w \<le> length x"
        then have l: "length x < length w" by simp
        have "(w @ r') ! length x = w ! length x" using l by (simp add: nth_append)
        then have "w ! length x = (x @ tok @ ?R) ! length x" by (metis w(1))
        also have "\<dots> = hd tok" using t(1)
          by (cases tok) (simp_all add: nth_append)
        finally have "w ! length x = hd tok" .
        moreover have "C (w ! length x)" using w(2) l by (simp add: list_all_length)
        ultimately show False using t(2) by simp
      qed
      from w(1) lw have x: "x = w @ drop (length w) x"
        by (metis append_eq_conv_conj append_take_drop_id take_append diff_is_0_eq take_0 append_Nil2)
      from w(1) lw have rr: "r' = drop (length w) x @ tok @ ?R"
        by (metis append_eq_conv_conj drop_append diff_is_0_eq drop_0)
      from r' x rr have "m (w @ r') = Some r'" by (metis append_assoc)
      from good_extend[OF m this, of "drop (length w) x @ s"] x
      show ?thesis by (metis append_assoc)
    qed
  qed
qed

lemma nth_last_append:
  assumes "xs \<noteq> []"
  shows "(xs @ ys) ! (length xs - 1) = last xs"
  using assms by (simp add: nth_append last_conv_nth)

text \<open>No match starts inside a token: it would be a match inside the token itself.\<close>

lemma token_barrier:
  assumes m: "good C n m" and t: "tok \<noteq> []" "\<not> C (last tok)" "\<not> re_search m tok"
    and i: "i < length tok"
  shows "m (drop i tok @ b) = None"
proof (rule ccontr)
  assume "m (drop i tok @ b) \<noteq> None"
  then obtain r' where r': "m (drop i tok @ b) = Some r'" by auto
  let ?a = "drop i tok"
  have an: "?a \<noteq> []" using i by simp
  have la: "last ?a = last tok" using i by simp
  from good_consumed[OF m r'] obtain w where
    w: "?a @ b = w @ r'" "list_all C w" by blast
  have lw: "length w < length ?a"
  proof (rule ccontr)
    assume "\<not> length w < length ?a"
    then have l: "length ?a \<le> length w" by simp
    have k: "length ?a - 1 < length w" using l an by (cases ?a) auto
    have "(w @ r') ! (length ?a - 1) = w ! (length ?a - 1)" using k by (simp add: nth_append)
    then have "w ! (length ?a - 1) = (?a @ b) ! (length ?a - 1)" by (metis w(1))
    also have "\<dots> = last ?a" using an by (rule nth_last_append)
    finally have "w ! (length ?a - 1) = last tok" using la by simp
    moreover have "C (w ! (length ?a - 1))" using w(2) k by (simp add: list_all_length)
    ultimately show False using t(2) by simp
  qed
  from w(1) lw have x: "?a = w @ drop (length w) ?a"
    by (metis append_eq_conv_conj append_take_drop_id take_append diff_is_0_eq take_0 append_Nil2
        less_imp_le)
  from w(1) lw have rr: "r' = drop (length w) ?a @ b"
    by (metis append_eq_conv_conj drop_append diff_is_0_eq drop_0 less_imp_le)
  from r' x rr have "m (w @ r') = Some r'" by (metis append_assoc)
  from good_extend[OF m this, of "drop (length w) ?a"] x
  have "m ?a \<noteq> None" by simp
  moreover have "re_search m ?a \<Longrightarrow> False"
    using re_search_drop[of m i tok] t(3) by blast
  moreover have "re_search m ?a" if "m ?a \<noteq> None"
    using that an by (cases ?a) auto
  ultimately show False by blast
qed

lemma no_match_in_token_front:
  assumes m: "good C n m" and t: "tok \<noteq> []" "\<not> C (last tok)" "\<not> re_search m tok"
    and b: "\<not> re_search m b"
  shows "\<not> re_search m (tok @ b)"
  using token_barrier[OF m t] b by (auto simp: re_search_append)

text \<open>Replacing the matches of one pattern brings no match of another into a text.\<close>

lemma no_new_match:
  assumes m: "good C n m" and m': "good C' n' m'"
    and t: "tok \<noteq> []" "\<not> C (hd tok)" "\<not> C (last tok)" "\<not> re_search m tok"
    and a: "\<not> re_search m s"
  shows "\<not> re_search m (re_sub m' tok s)"
  using a
proof (induction s rule: length_induct)
  case (1 s)
  show ?case
  proof (cases s)
    case Nil
    with "1.prems" show ?thesis by simp
  next
    case (Cons c cs)
    show ?thesis
    proof (cases "\<exists>rest. m' (c # cs) = Some rest \<and> length rest \<le> length cs")
      case False
      then have e: "re_sub m' tok (c # cs) = c # re_sub m' tok cs"
        by (auto split: option.splits)
      from "1.prems" Cons have "\<not> re_search m cs" and nm: "m (c # cs) = None" by auto
      with "1.IH" Cons have "\<not> re_search m (re_sub m' tok cs)" by simp
      moreover have "m (c # re_sub m' tok cs) = None"
      proof (rule ccontr)
        assume "m (c # re_sub m' tok cs) \<noteq> None"
        then have "m ([c] @ re_sub m' tok cs) \<noteq> None" by simp
        from match_in_front[OF m t(1,2) this] nm show False by simp
      qed
      ultimately show ?thesis using e Cons by simp
    next
      case True
      then obtain rest where r: "m' (c # cs) = Some rest" "length rest \<le> length cs" by blast
      then have e: "re_sub m' tok (c # cs) = tok @ re_sub m' tok rest" by simp
      from good_consumed[OF m' r(1)] obtain w where "c # cs = w @ rest" by blast
      then have "rest = drop (length w) s" using Cons by simp
      with "1.prems" have "\<not> re_search m rest" using re_search_drop by blast
      moreover have "length rest < length s" using r(2) Cons by simp
      ultimately have "\<not> re_search m (re_sub m' tok rest)" using "1.IH" by blast
      from no_match_in_token_front[OF m t(1,3,4) this] e Cons show ?thesis by simp
    qed
  qed
qed

text \<open>After the matches of a pattern are replaced, the pattern matches nowhere.\<close>

lemma no_match_left:
  assumes m: "good C n m" and n: "0 < n"
    and t: "tok \<noteq> []" "\<not> C (hd tok)" "\<not> C (last tok)" "\<not> re_search m tok"
  shows "\<not> re_search m (re_sub m tok s)"
proof (induction s rule: length_induct)
  case (1 s)
  show ?case
  proof (cases s)
    case Nil
    have "m [] = None"
    proof (rule ccontr)
      assume "m [] \<noteq> None"
      then obtain r where "m [] = Some r" by auto
      from good_consumed[OF m this] n show False by auto
    qed
    with Nil show ?thesis by simp
  next
    case (Cons c cs)
    show ?thesis
    proof (cases "m (c # cs)")
      case None
      then have e: "re_sub m tok (c # cs) = c # re_sub m tok cs" by simp
      from "1.IH" Cons have "\<not> re_search m (re_sub m tok cs)" by simp
      moreover have "m (c # re_sub m tok cs) = None"
      proof (rule ccontr)
        assume "m (c # re_sub m tok cs) \<noteq> None"
        then have "m ([c] @ re_sub m tok cs) \<noteq> None" by simp
        from match_in_front[OF m t(1,2) this] None show False by simp
      qed
      ultimately show ?thesis using e Cons by simp
    next
      case (Some rest)
      from good_consumed[OF m Some] obtain w where w: "c # cs = w @ rest" "n \<le> length w" by blast
      then have "length (c # cs) = length w + length rest" by (metis length_append)
      with w(2) n have l: "length rest \<le> length cs" by simp
      with Some have e: "re_sub m tok (c # cs) = tok @ re_sub m tok rest" by simp
      have "length rest < length s" using l Cons by simp
      with "1.IH" have "\<not> re_search m (re_sub m tok rest)" by blast
      from no_match_in_token_front[OF m t(1,3,4) this] e Cons show ?thesis by simp
    qed
  qed
qed

lemma re_sub_has_token:
  assumes m: "good C n m" and n: "0 < n" and a: "re_search m s"
  shows "\<exists>a b. re_sub m tok s = a @ tok @ b"
  using a
proof (induction s)
  case Nil
  then obtain r where "m [] = Some r" by auto
  from good_consumed[OF m this] n show ?case by auto
next
  case (Cons c cs)
  show ?case
  proof (cases "m (c # cs)")
    case None
    with Cons.prems have "re_search m cs" by simp
    from Cons.IH[OF this] obtain a b where "re_sub m tok cs = a @ tok @ b" by blast
    with None have "re_sub m tok (c # cs) = (c # a) @ tok @ b" by simp
    then show ?thesis by blast
  next
    case (Some rest)
    from good_consumed[OF m Some] obtain w where w: "c # cs = w @ rest" "n \<le> length w" by blast
    then have "length (c # cs) = length w + length rest" by (metis length_append)
    with w(2) n have l: "length rest \<le> length cs" by simp
    with Some have "re_sub m tok (c # cs) = [] @ tok @ re_sub m tok rest" by simp
    then show ?thesis by blast
  qed
qed

section \<open>The two patterns and the literal texts\<close>

text \<open>
  The literal matchers and the two patterns are \<open>good\<close>, each for the characters its
  matches can hold.
\<close>

lemma match_literal_mapped: "match_literal old = match_mapped (\<lambda>c. c) old"
  by (rule ext) (simp add: match_literal_def match_mapped_def)

lemma good_match_mapped: "good (\<lambda>c. f c \<in> set needle) (length needle) (match_mapped f needle)"
proof (rule goodI)
  fix s r assume "match_mapped f needle s = Some r"
  then have t: "take (length needle) (map f s) = needle" and r: "drop (length needle) s = r"
    by (auto simp: match_mapped_def str_startswith_def split: if_splits)
  let ?w = "take (length needle) s"
  from t have m: "map f ?w = needle" by (simp add: take_map)
  then have l: "length ?w = length needle" by (metis length_map)
  have "\<forall>c\<in>set ?w. f c \<in> set needle"
    using m by (metis image_eqI list.set_map)
  then have "list_all (\<lambda>c. f c \<in> set needle) ?w" by (simp add: list_all_iff)
  moreover have "s = ?w @ r" unfolding r[symmetric] by simp
  ultimately show "\<exists>w. s = w @ r \<and> list_all (\<lambda>c. f c \<in> set needle) w \<and> length needle \<le> length w"
    using l by (intro exI[of _ ?w]) simp
next
  fix w r r' assume a: "match_mapped f needle (w @ r) = Some r"
  have t: "take (length needle) (map f (w @ r)) = needle"
    using a by (simp add: match_mapped_def str_startswith_def split: if_splits)
  have d: "drop (length needle) (w @ r) = r"
    using a by (simp add: match_mapped_def split: if_splits)
  have "length (take (length needle) (map f (w @ r))) = length needle"
    by (rule arg_cong[OF t])
  then have n: "length needle \<le> length w + length r" by simp
  have "length (drop (length needle) (w @ r)) = length r"
    by (rule arg_cong[OF d])
  then have "length w + length r - length needle = length r" by simp
  with n have l: "length w = length needle" by arith
  from t l have "map f w = needle" by simp
  with l have "take (length needle) (map f (w @ r')) = needle" by simp
  then show "match_mapped f needle (w @ r') \<noteq> None"
    by (simp add: match_mapped_def str_startswith_def)
qed

lemma str_contains_mapped:
  "str_contains needle (map f s) = re_search (match_mapped f needle) s"
  by (induction s) (auto simp: match_mapped_def str_startswith_def)

lemma good_EMAIL: "good email_char 1 EMAIL"
proof -
  have a: "\<And>c. is_alpha c \<Longrightarrow> email_char c" by (simp add: email_char_def is_local_def)
  have d: "\<And>c. is_domain c \<Longrightarrow> email_char c"
    by (auto simp: email_char_def is_local_def is_domain_def)
  have l: "\<And>c. is_local c \<Longrightarrow> email_char c" by (simp add: email_char_def)
  have dot: "email_char (CHR ''.'')" by (simp add: email_char_def is_local_def)
  have at: "email_char (CHR ''@'')" by (simp add: email_char_def)
  have "good email_char (2 + 0) (greedy is_alpha 2 accept)"
    by (intro good_greedy good_accept a)
  then have "good email_char (Suc (2 + 0)) (lit (CHR ''.'') (greedy is_alpha 2 accept))"
    using dot by (rule good_lit)
  then have "good email_char (1 + Suc (2 + 0))
               (greedy is_domain 1 (lit (CHR ''.'') (greedy is_alpha 2 accept)))"
    by (intro good_greedy d)
  then have "good email_char (Suc (1 + Suc (2 + 0)))
               (lit (CHR ''@'') (greedy is_domain 1 (lit (CHR ''.'') (greedy is_alpha 2 accept))))"
    using at by (rule good_lit)
  then have "good email_char (1 + Suc (1 + Suc (2 + 0))) EMAIL"
    unfolding EMAIL_def by (intro good_greedy l)
  then show ?thesis by (rule good_weaken) simp
qed

lemma good_PHONE: "good phone_char 1 PHONE"
proof -
  have dg: "\<And>c. is_digit c \<Longrightarrow> phone_char c" by (simp add: phone_char_def)
  have sp: "\<And>c. is_separator c \<Longrightarrow> phone_char c" by (simp add: phone_char_def)
  have ws: "\<And>c. is_space c \<Longrightarrow> phone_char c" by (simp add: phone_char_def is_separator_def)
  have op: "phone_char (CHR ''('')" and cl: "phone_char (CHR '')'')"
    by (simp_all add: phone_char_def)
  have tail: "good phone_char (3 + (4 + 0))
                (exactly 3 is_digit (lazy_optional is_separator (exactly 4 is_digit accept)))"
    by (intro good_exactly good_lazy_optional good_accept dg sp)
  have a1: "good phone_char (3 + (3 + (4 + 0)))
              (exactly 3 is_digit (lazy_optional is_separator
                 (exactly 3 is_digit (lazy_optional is_separator (exactly 4 is_digit accept)))))"
    by (intro good_exactly good_lazy_optional tail dg sp)
  have "good phone_char (0 + (3 + (4 + 0)))
          (greedy is_space 0
             (exactly 3 is_digit (lazy_optional is_separator (exactly 4 is_digit accept))))"
    by (intro good_greedy tail ws)
  then have "good phone_char (Suc (0 + (3 + (4 + 0))))
          (lit (CHR '')'') (greedy is_space 0
             (exactly 3 is_digit (lazy_optional is_separator (exactly 4 is_digit accept)))))"
    using cl by (rule good_lit)
  then have "good phone_char (3 + Suc (0 + (3 + (4 + 0))))
          (exactly 3 is_digit (lit (CHR '')'') (greedy is_space 0
             (exactly 3 is_digit (lazy_optional is_separator (exactly 4 is_digit accept))))))"
    by (intro good_exactly dg)
  then have a2: "good phone_char (Suc (3 + Suc (0 + (3 + (4 + 0)))))
          (lit (CHR ''('') (exactly 3 is_digit (lit (CHR '')'') (greedy is_space 0
             (exactly 3 is_digit (lazy_optional is_separator (exactly 4 is_digit accept)))))))"
    using op by (rule good_lit)
  have a3: "good phone_char (7 + 0) (exactly 7 is_digit accept)"
    by (intro good_exactly good_accept dg)
  have b1: "good phone_char 1
              (exactly 3 is_digit (lazy_optional is_separator
                 (exactly 3 is_digit (lazy_optional is_separator (exactly 4 is_digit accept)))))"
    by (rule good_weaken[OF a1]) simp
  have b2: "good phone_char 1
          (lit (CHR ''('') (exactly 3 is_digit (lit (CHR '')'') (greedy is_space 0
             (exactly 3 is_digit (lazy_optional is_separator (exactly 4 is_digit accept)))))))"
    by (rule good_weaken[OF a2]) simp
  have b3: "good phone_char 1 (exactly 7 is_digit accept)"
    by (rule good_weaken[OF a3]) simp
  show ?thesis
    unfolding PHONE_def by (rule good_alternative[OF b1 good_alternative[OF b2 b3]])
qed

section \<open>Scrubbing\<close>

text \<open>
  Claim C8 asks that in every string field each substring matching the e-mail or the
  telephone pattern is replaced by its mask token, the text around it kept, and that other
  fields pass unchanged. The code does so unless the field contains \<open>name\<close> or
  \<open>address\<close>, in any case: there \<open>_mask_value\<close> computes the masked text and then
  returns the replacement of \<open>John Doe\<close> made in the original text. The row below holds
  an e-mail address and a telephone number that the two patterns match, and a login that
  is an e-mail address; it comes back as it was.
\<close>

theorem masks_discarded_in_name_fields:
  "re_search EMAIL ''Contact name: Bob, bob@example.com, 555-123-4567''
   \<and> re_search PHONE ''Contact name: Bob, bob@example.com, 555-123-4567''
   \<and> re_sub PHONE ''[MASKED_PHONE]''
         (re_sub EMAIL ''[MASKED_EMAIL]'' ''Contact name: Bob, bob@example.com, 555-123-4567'')
       = ''Contact name: Bob, [MASKED_EMAIL], [MASKED_PHONE]''
   \<and> scrub_results [[(''id'', IntV 4),
                       (''note'', StrV ''Contact name: Bob, bob@example.com, 555-123-4567''),
                       (''login'', StrV ''username@example.com'')]]
       = [[(''id'', IntV 4),
           (''note'', StrV ''Contact name: Bob, bob@example.com, 555-123-4567''),
           (''login'', StrV ''username@example.com'')]]"
  by code_simp

text \<open>
  The mask tokens begin and end with a bracket, which no pattern and none of the words
  looked for can match, and hold no match themselves. So a replacement leaves no match
  of its own pattern and brings in no match of another one.
\<close>

lemmas char_class_defs =
  email_char_def phone_char_def is_local_def is_domain_def is_alpha_def is_digit_def
  is_separator_def is_space_def whitespace_def ascii_lowercase_def ascii_uppercase_def digits_def

lemma email_brackets: "\<not> email_char (CHR ''['')" "\<not> email_char (CHR '']'')"
  by (simp_all add: char_class_defs)

lemma phone_brackets: "\<not> phone_char (CHR ''['')" "\<not> phone_char (CHR '']'')"
  by (simp_all add: char_class_defs)

lemma lower_char_bracket: "lower_char (CHR ''['') = CHR ''[''" "lower_char (CHR '']'') = CHR '']''"
  by (simp_all add: lower_char_def ascii_lowercase_def ascii_uppercase_def)

lemma email_in_tokens:
  "\<not> re_search EMAIL ''[MASKED_EMAIL]''" "\<not> re_search EMAIL ''[MASKED_PHONE]''"
  by code_simp+

lemma phone_in_tokens:
  "\<not> re_search PHONE ''[MASKED_EMAIL]''" "\<not> re_search PHONE ''[MASKED_PHONE]''"
  by code_simp+

lemma john_doe_in_token:
  "\<not> re_search (match_mapped (\<lambda>c. c) ''John Doe'') ''[MASKED_NAME]''"
  by code_simp

lemma name_in_tokens:
  "\<not> re_search (match_mapped lower_char ''name'') ''[MASKED_EMAIL]''"
  "\<not> re_search (match_mapped lower_char ''name'') ''[MASKED_PHONE]''"
  "\<not> re_search (match_mapped lower_char ''address'') ''[MASKED_EMAIL]''"
  "\<not> re_search (match_mapped lower_char ''address'') ''[MASKED_PHONE]''"
  by code_simp+

lemma email_sub_clean: "\<not> re_search EMAIL (re_sub EMAIL ''[MASKED_EMAIL]'' s)"
  by (rule no_match_left[OF good_EMAIL _ _ _ _ email_in_tokens(1)]) (simp_all add: email_brackets)

lemma phone_sub_clean: "\<not> re_search PHONE (re_sub PHONE ''[MASKED_PHONE]'' s)"
  by (rule no_match_left[OF good_PHONE _ _ _ _ phone_in_tokens(2)]) (simp_all add: phone_brackets)

lemma email_after_phone_sub:
  "\<not> re_search EMAIL s \<Longrightarrow> \<not> re_search EMAIL (re_sub PHONE ''[MASKED_PHONE]'' s)"
  by (rule no_new_match[OF good_EMAIL good_PHONE _ _ _ email_in_tokens(2)])
     (simp_all add: email_brackets)

lemma phone_after_email_sub:
  "\<not> re_search PHONE s \<Longrightarrow> \<not> re_search PHONE (re_sub EMAIL ''[MASKED_EMAIL]'' s)"
  by (rule no_new_match[OF good_PHONE good_EMAIL _ _ _ phone_in_tokens(1)])
     (simp_all add: phone_brackets)

lemma name_flag_search:
  "name_flag s \<longleftrightarrow> re_search (match_mapped lower_char ''address'') s
                  \<or> re_search (match_mapped lower_char ''name'') s"
  by (simp add: name_flag_def str_lower_def str_contains_mapped)

lemma word_after_sub:
  assumes w: "w = ''name'' \<or> w = ''address''"
    and t: "tok = ''[MASKED_EMAIL]'' \<or> tok = ''[MASKED_PHONE]''"
    and m': "good C' n' m'"
    and a: "\<not> re_search (match_mapped lower_char w) s"
  shows "\<not> re_search (match_mapped lower_char w) (re_sub m' tok s)"
proof (rule no_new_match[OF good_match_mapped m' _ _ _ _ a])
  show "tok \<noteq> []" using t by auto
  show "\<not> lower_char (hd tok) \<in> set w" using w t by (auto simp: lower_char_bracket)
  show "\<not> lower_char (last tok) \<in> set w" using w t by (auto simp: lower_char_bracket)
  show "\<not> re_search (match_mapped lower_char w) tok" using w t name_in_tokens by auto
qed

lemma name_flag_after_sub:
  assumes t: "tok = ''[MASKED_EMAIL]'' \<or> tok = ''[MASKED_PHONE]''"
    and m': "good C' n' m'"
    and a: "\<not> name_flag s"
  shows "\<not> name_flag (re_sub m' tok s)"
  using a word_after_sub[OF _ t m', of "''name''" s] word_after_sub[OF _ t m', of "''address''" s]
  unfolding name_flag_search by blast

lemma mask_value_unflagged:
  assumes "\<not> name_flag s"
  shows "mask_value s =
           (if re_search PHONE s then re_sub PHONE ''[MASKED_PHONE]'' (re_sub EMAIL ''[MASKED_EMAIL]'' s)
            else re_sub EMAIL ''[MASKED_EMAIL]'' s)"
  using assms by (simp add: mask_value_def name_flag_def Let_def re_sub_no_match)

lemma mask_value_clean:
  assumes "\<not> name_flag s" and "\<not> re_search EMAIL s" and "\<not> re_search PHONE s"
  shows "mask_value s = s"
  using assms by (simp add: mask_value_unflagged re_sub_no_match)

lemma mask_value_flagged:
  assumes "name_flag s"
  shows "mask_value s = re_sub (match_mapped (\<lambda>c. c) ''John Doe'') ''[MASKED_NAME]'' s"
  using assms by (simp add: mask_value_def name_flag_def Let_def str_replace_def match_literal_mapped)

lemma john_doe_sub_clean:
  "\<not> re_search (match_mapped (\<lambda>c. c) ''John Doe'')
       (re_sub (match_mapped (\<lambda>c. c) ''John Doe'') ''[MASKED_NAME]'' s)"
  by (rule no_match_left[OF good_match_mapped _ _ _ _ john_doe_in_token]) simp_all

lemma name_in_name_token:
  "re_search (match_mapped lower_char ''name'') (a @ ''[MASKED_NAME]'' @ b)"
proof -
  have "match_mapped lower_char ''name'' (drop 8 ''[MASKED_NAME]'' @ b) \<noteq> None"
    by (simp add: match_mapped_def str_startswith_def lower_char_def
                  ascii_lowercase_def ascii_uppercase_def)
  then have "re_search (match_mapped lower_char ''name'') (''[MASKED_NAME]'' @ b)"
    by (subst re_search_append) (intro disjI1 exI[of _ 8], simp)
  then show ?thesis by (rule re_search_suffix)
qed

lemma name_flag_kept:
  assumes "name_flag s"
  shows "name_flag (re_sub (match_mapped (\<lambda>c. c) ''John Doe'') ''[MASKED_NAME]'' s)"
proof (cases "re_search (match_mapped (\<lambda>c. c) ''John Doe'') s")
  case False
  with assms show ?thesis by (simp add: re_sub_no_match)
next
  case True
  from re_sub_has_token[OF good_match_mapped _ True, of "''[MASKED_NAME]''"]
  obtain a b where
    "re_sub (match_mapped (\<lambda>c. c) ''John Doe'') ''[MASKED_NAME]'' s = a @ ''[MASKED_NAME]'' @ b"
    by auto
  then show ?thesis using name_in_name_token[of a b] by (simp add: name_flag_search)
qed

lemma mask_value_idempotent: "mask_value (mask_value s) = mask_value s"
proof (cases "name_flag s")
  case True
  let ?R = "re_sub (match_mapped (\<lambda>c. c) ''John Doe'') ''[MASKED_NAME]'' s"
  have "mask_value ?R = re_sub (match_mapped (\<lambda>c. c) ''John Doe'') ''[MASKED_NAME]'' ?R"
    by (rule mask_value_flagged[OF name_flag_kept[OF True]])
  also have "\<dots> = ?R" by (rule re_sub_no_match[OF john_doe_sub_clean])
  finally show ?thesis by (simp add: mask_value_flagged[OF True])
next
  case False
  let ?M1 = "re_sub EMAIL ''[MASKED_EMAIL]'' s"
  have f1: "\<not> name_flag ?M1"
    by (rule name_flag_after_sub[OF _ good_EMAIL False]) simp
  have e1: "\<not> re_search EMAIL ?M1" by (rule email_sub_clean)
  show ?thesis
  proof (cases "re_search PHONE s")
    case True
    let ?M2 = "re_sub PHONE ''[MASKED_PHONE]'' ?M1"
    have m: "mask_value s = ?M2" using False True by (simp add: mask_value_unflagged)
    have "\<not> name_flag ?M2" by (rule name_flag_after_sub[OF _ good_PHONE f1]) simp
    moreover have "\<not> re_search EMAIL ?M2" by (rule email_after_phone_sub[OF e1])
    moreover have "\<not> re_search PHONE ?M2" by (rule phone_sub_clean)
    ultimately have "mask_value ?M2 = ?M2" by (rule mask_value_clean)
    with m show ?thesis by simp
  next
    case nophone: False
    have m: "mask_value s = ?M1" using False nophone by (simp add: mask_value_unflagged)
    have "\<not> re_search PHONE ?M1" by (rule phone_after_email_sub[OF nophone])
    with f1 e1 have "mask_value ?M1 = ?M1" by (rule mask_value_clean)
    with m show ?thesis by simp
  qed
qed

lemma scrub_results_non_string:
  assumes "\<And>s. v \<noteq> StrV s"
  shows "scrub_results [[(key, v)]] = [[(key, v)]]"
  using assms by (cases v) (auto simp: scrub_results_def)

text \<open>
  Claim C9. Scrubbing is idempotent: scrubbing the scrubbed rows again changes nothing.
\<close>

theorem scrub_results_idempotent:
  "scrub_results (scrub_results rows) = scrub_results rows"
proof -
  define g where "g = (\<lambda>v. case v of StrV s \<Rightarrow> StrV (mask_value s) | _ \<Rightarrow> v)"
  have gg: "g (g v) = g v" for v
    by (cases v) (simp_all add: g_def mask_value_idempotent)
  have eq: "scrub_results rs = map (map (\<lambda>kv. (fst kv, g (snd kv)))) rs" for rs
    by (simp add: scrub_results_def g_def case_prod_beta)
  show ?thesis
    by (simp add: eq comp_def gg)
qed

theorem scrub_results_idempotent_witness:
  "scrub_results [[(''id'', IntV 4), (''mail'', StrV ''to bob@example.com or 555-123-4567'')]]
     = [[(''id'', IntV 4), (''mail'', StrV ''to [MASKED_EMAIL] or [MASKED_PHONE]'')]]
   \<and> scrub_results [[(''id'', IntV 4), (''mail'', StrV ''to [MASKED_EMAIL] or [MASKED_PHONE]'')]]
     = [[(''id'', IntV 4), (''mail'', StrV ''to [MASKED_EMAIL] or [MASKED_PHONE]'')]]"
proof -
  have a: "scrub_results [[(''id'', IntV 4), (''mail'', StrV ''to bob@example.com or 555-123-4567'')]]
             = [[(''id'', IntV 4), (''mail'', StrV ''to [MASKED_EMAIL] or [MASKED_PHONE]'')]]"
    by code_simp
  from scrub_results_idempotent
         [of "[[(''id'', IntV 4), (''mail'', StrV ''to bob@example.com or 555-123-4567'')]]"]
  have "scrub_results [[(''id'', IntV 4), (''mail'', StrV ''to [MASKED_EMAIL] or [MASKED_PHONE]'')]]
          = [[(''id'', IntV 4), (''mail'', StrV ''to [MASKED_EMAIL] or [MASKED_PHONE]'')]]"
    unfolding a .
  with a show ?thesis by (rule conjI)
qed

end
